theory Spec2Isabelle
  imports Complex_Main "HOL-Library.Word" "HOL-Library.Signed_Division"
begin

section \<open>Strings: the functions of package strings and fmt that optimizer.go calls\<close>

text \<open>
  Go strings are byte sequences; \<^typ>\<open>string\<close> is a list of 8-bit characters.
  \<open>strings.Split(s, " ")\<close> cuts at every single space and always returns at least
  one part (\<open>[""]\<close> for the empty string); two spaces in a row give an empty part.
  The source only ever splits at one space, so the separator is one character here.
\<close>

fun Split :: "string \<Rightarrow> char \<Rightarrow> string list" where
  "Split [] sep = [[]]"
| "Split (x # xs) sep =
     (if x = sep then [] # Split xs sep
      else (case Split xs sep of
              [] \<Rightarrow> [[x]]
            | p # ps \<Rightarrow> (x # p) # ps))"

definition HasPrefix :: "string \<Rightarrow> string \<Rightarrow> bool" where
  "HasPrefix s pre = (take (length pre) s = pre)"

definition TrimPrefix :: "string \<Rightarrow> string \<Rightarrow> string" where
  "TrimPrefix s pre = (if HasPrefix s pre then drop (length pre) s else s)"

text \<open>The verb \<open>%d\<close> of \<open>fmt.Sprintf\<close> on a length (never negative).\<close>

fun itoa :: "nat \<Rightarrow> string" where
  "itoa n =
     (if n < 10 then [''0123456789'' ! n]
      else itoa (n div 10) @ [''0123456789'' ! (n mod 10)])"

declare itoa.simps [simp del]

section \<open>Command type and target (optimizer.go, lines 401 to 415)\<close>

definition extractCommandType :: "string \<Rightarrow> string" where
  "extractCommandType command =
     (let parts = Split command (CHR '' '') in
      if length parts > 0 \<and> HasPrefix (parts ! 0) ''/user:''
      then TrimPrefix (parts ! 0) ''/user:''
      else ''unknown'')"

definition extractTarget :: "string \<Rightarrow> string" where
  "extractTarget command =
     (let parts = Split command (CHR '' '') in
      if length parts > 1 then parts ! 1 else ''.'')"

text \<open>The cache key of \<open>OptimizeCommand\<close>, line 135: \<open>fmt.Sprintf("%s:%s", sessionID, command)\<close>.\<close>

definition cacheKey :: "string \<Rightarrow> string \<Rightarrow> string" where
  "cacheKey sessionID command = sessionID @ '':'' @ command"

section \<open>Time\<close>

text \<open>
  A \<open>time.Time\<close> is a reading of the process clock in nanoseconds; a
  \<open>time.Duration\<close> is an \<open>int64\<close> of nanoseconds. \<open>t.Sub(u)\<close> saturates at the
  ends of \<open>int64\<close>, and \<open>time.Since(t)\<close> is \<open>time.Now().Sub(t)\<close>: every function
  below that reads the clock takes the reading as its argument \<open>now\<close>.
\<close>

type_synonym time = int
type_synonym int64 = "64 word"
type_synonym duration = int64

definition Sub :: "time \<Rightarrow> time \<Rightarrow> duration" where
  "Sub t u =
     (let d = t - u in
      if d > 9223372036854775807 then word_of_int 9223372036854775807
      else if d < - 9223372036854775808 then word_of_int (- 9223372036854775808)
      else word_of_int d)"

definition Since :: "time \<Rightarrow> time \<Rightarrow> duration" where
  "Since now t = Sub now t"

definition Millisecond :: duration where
  "Millisecond = 1000000"

definition Minute :: duration where
  "Minute = 60000000000"

text \<open>Go's \<open>/\<close> on \<open>int64\<close> truncates towards zero.\<close>

definition div64 :: "int64 \<Rightarrow> int64 \<Rightarrow> int64" where
  "div64 a b = word_of_int (sint a sdiv sint b)"

section \<open>Data model (optimizer.go, lines 14 to 65 and 310 to 314)\<close>

text \<open>
  A \<open>context.Context\<close> is described by the instant at which its \<open>Done\<close> channel is
  closed (if ever) and the error \<open>Err\<close> returns from then on.
\<close>

datatype error = Canceled | DeadlineExceeded

record ctx =
  doneAt :: "time option"
  cause :: error

definition ctxDone :: "ctx \<Rightarrow> time \<Rightarrow> bool" where
  "ctxDone ctx now = (case doneAt ctx of None \<Rightarrow> False | Some t \<Rightarrow> t \<le> now)"

record OptimizedResponse =
  Result :: string
  Error :: "error option"
  CacheHit :: bool
  BatchSize :: int
  Duration :: duration

text \<open>
  The field \<open>Response\<close> is a channel of capacity 1 made for this request alone; the
  model holds its address, and the channels live in the state below.
\<close>

record OptimizedRequest =
  Command :: string
  SessionID :: string
  Context :: ctx
  Response :: nat
  Timestamp :: time

record CacheEntry =
  Data :: string
  entry_Timestamp :: time

record Metrics =
  totalRequests :: int64
  cacheHits :: int64
  avgDuration :: duration
  peakMemory :: "64 word"

text \<open>
  The worker pool. Go's \<open>int\<close> is 64 bits wide on the platforms the repository is
  built for (amd64 and arm64), so \<open>workers\<close> is an \<open>int64\<close>. \<open>taskQueue\<close> is the
  buffered channel, whose capacity is \<open>workers*2\<close> as Go computes it. Three fields
  hold what the goroutines around the struct are doing: \<open>running\<close> has one slot for
  each worker goroutine started by \<open>NewWorkerPool\<close> (\<open>None\<close> while the worker is
  blocked receiving from \<open>taskQueue\<close>, \<open>Some task\<close> while it is inside the function
  it received), \<open>sending\<close> holds the tasks of the callers of \<open>Submit\<close> that have
  passed \<open>wg.Add(1)\<close> and have not completed the send on \<open>taskQueue\<close>, and \<open>wg\<close>
  is the counter of the \<open>sync.WaitGroup\<close> (an \<open>int32\<close>).
\<close>

record 'task WorkerPool =
  workers :: int64
  taskQueue :: "'task list"
  running :: "'task option list"
  sending :: "'task list"
  wg :: int

record Optimizer =
  cache :: "string \<rightharpoonup> CacheEntry"
  cacheSize :: int
  cacheTTL :: duration
  batchQueue :: "OptimizedRequest list"
  batchSize :: int
  batchDelay :: duration
  workerPool :: "OptimizedRequest WorkerPool"
  metrics :: Metrics

text \<open>
  What the optimizer's goroutines share beyond the struct: the response channels, by
  address (\<open>chans s c\<close> is everything sent on channel \<open>c\<close> so far, oldest first, and
  \<open>nextChan\<close> the next address \<open>make\<close> hands out), and the local buffer \<open>batch\<close> of
  the goroutine \<open>processBatches\<close>. Two logs instrument the code: \<open>executions\<close> gets
  one entry for each evaluation of a \<open>result := ...\<close> line (the place where, by the
  source's comment, the actual handler would be called), and \<open>flushes\<close> one entry
  for each call of \<open>processBatch\<close> made by \<open>processBatches\<close>.
\<close>

datatype execution = ExecSingle string | ExecCombined string nat

datatype trigger = BySize | ByTimer

text \<open>
  The goroutine \<open>cleanCache\<close> is, at any moment, in one of three places: outside the
  callback it passes to \<open>Range\<close> (\<open>Idle\<close>: waiting for its ticker, or between two
  keys); in the callback with the key and the value that \<open>Range\<close> read for it, the
  test of line 329 not yet made (\<open>Loaded\<close>); or past that test, which found the value
  expired, the \<open>Delete(key)\<close> of line 330 not yet made (\<open>Expired\<close>).
\<close>

datatype visit = Idle | Loaded string CacheEntry | Expired string

record runtime = Optimizer +
  chans :: "nat \<Rightarrow> OptimizedResponse list"
  nextChan :: nat
  batch :: "OptimizedRequest list"
  cleaner :: visit
  executions :: "execution list"
  flushes :: "(trigger \<times> OptimizedRequest list) list"

section \<open>Dispatching a batch (optimizer.go, lines 212 to 308)\<close>

text \<open>
  A Go map from strings to slices, filled by \<open>m[k] = append(m[k], v)\<close>, is an
  association list with distinct keys in the order of first insertion; \<open>range\<close>
  visits the keys in an order Go does not fix, and the model visits them in list order.
  The groups of a batch hold disjoint requests and every request has a channel of its
  own, so the order changes neither what is sent on a channel nor how many executions
  are logged (\<open>processCommandGroup_commute\<close> and \<open>combineTarget_commute\<close> below).
\<close>

fun appendGroup :: "'k \<Rightarrow> 'v \<Rightarrow> ('k \<times> 'v list) list \<Rightarrow> ('k \<times> 'v list) list" where
  "appendGroup k v [] = [(k, [v])]"
| "appendGroup k v ((k', vs) # m) =
     (if k' = k then (k', vs @ [v]) # m else (k', vs) # appendGroup k v m)"

definition groupBy :: "('v \<Rightarrow> 'k) \<Rightarrow> 'v list \<Rightarrow> ('k \<times> 'v list) list" where
  "groupBy key xs = foldl (\<lambda>m x. appendGroup (key x) x m) [] xs"

definition send :: "nat \<Rightarrow> OptimizedResponse \<Rightarrow> runtime \<Rightarrow> runtime" where
  "send c resp s = s\<lparr>chans := (chans s)(c := chans s c @ [resp])\<rparr>"

definition processSingleRequest :: "time \<Rightarrow> OptimizedRequest \<Rightarrow> runtime \<Rightarrow> runtime" where
  "processSingleRequest now req s =
     (let result = ''Processed: '' @ Command req;
          s1 = s\<lparr>executions := executions s @ [ExecSingle (Command req)]\<rparr>
      in send (Response req)
           \<lparr>Result = result, Error = None, CacheHit = False, BatchSize = 1,
            Duration = Since now (Timestamp req)\<rparr> s1)"

definition combinedResult :: "string \<Rightarrow> nat \<Rightarrow> string" where
  "combinedResult target n =
     ''Combined analysis of '' @ target @ '' for '' @ itoa n @ '' requests''"

definition combineTarget :: "time \<Rightarrow> string \<times> OptimizedRequest list \<Rightarrow> runtime \<Rightarrow> runtime" where
  "combineTarget now tr s =
     (let target = fst tr; reqs = snd tr;
          result = combinedResult target (length reqs);
          s1 = s\<lparr>executions := executions s @ [ExecCombined target (length reqs)]\<rparr>
      in fold (\<lambda>req. send (Response req)
                 \<lparr>Result = result, Error = None, CacheHit = False,
                  BatchSize = int (length reqs),
                  Duration = Since now (Timestamp req)\<rparr>) reqs s1)"

definition combineAnalyzeRequests :: "time \<Rightarrow> OptimizedRequest list \<Rightarrow> runtime \<Rightarrow> runtime" where
  "combineAnalyzeRequests now requests s =
     (let targets = groupBy (\<lambda>req. extractTarget (Command req)) requests
      in fold (combineTarget now) targets s)"

text \<open>
  \<open>parallelTestRequests\<close> submits one task for each request to the worker pool and
  returns when all have run (\<open>wg.Wait()\<close>); the closure takes the request of its own
  iteration (the loop variable is per iteration from Go 1.22 on, and the repository
  builds with Go 1.23 and 1.24). The tasks touch one channel each, so running them in
  list order stands for every schedule of the pool; the pool itself is the state
  machine of the next section.
\<close>

definition parallelTestRequests :: "time \<Rightarrow> OptimizedRequest list \<Rightarrow> runtime \<Rightarrow> runtime" where
  "parallelTestRequests now requests s = fold (processSingleRequest now) requests s"

definition processCommandGroup ::
  "time \<Rightarrow> string \<Rightarrow> OptimizedRequest list \<Rightarrow> runtime \<Rightarrow> runtime" where
  "processCommandGroup now cmdType requests s =
     (if cmdType = ''analyze'' then combineAnalyzeRequests now requests s
      else if cmdType = ''test'' then parallelTestRequests now requests s
      else fold (processSingleRequest now) requests s)"

definition processBatch :: "time \<Rightarrow> OptimizedRequest list \<Rightarrow> runtime \<Rightarrow> runtime" where
  "processBatch now batch' s =
     (let groups = groupBy (\<lambda>req. extractCommandType (Command req)) batch'
      in fold (\<lambda>g. processCommandGroup now (fst g) (snd g)) groups s)"

section \<open>The worker pool (optimizer.go, lines 94 to 128)\<close>

text \<open>
  \<open>workers*2\<close> is computed in \<open>int\<close> and wraps around;
  \<open>make(chan func(), workers*2)\<close> panics when the size it is given is negative:
  \<open>None\<close>. The loop \<open>for i := 0; i < workers; i++\<close> starts one goroutine for each
  \<open>i\<close> from 0 below \<open>workers\<close>, so none at all when \<open>workers\<close> is not positive;
  each starts blocked on the empty queue. (\<open>make\<close> and \<open>go\<close> also fail when the
  memory they need cannot be had, at sizes that depend on the platform; here memory
  does not run out, so that whatever holds of every pool below holds of every pool the
  code returns.)
\<close>

definition NewWorkerPool :: "int64 \<Rightarrow> 'task WorkerPool option" where
  "NewWorkerPool n =
     (if sint (n * 2) < 0 then None
      else Some \<lparr>workers = n, taskQueue = [], running = replicate (nat (sint n)) None,
                  sending = [], wg = 0\<rparr>)"





section \<open>Construction (optimizer.go, lines 67 to 92)\<close>

text \<open>
  \<open>numCPU\<close> is the value of \<open>runtime.NumCPU()\<close>, an \<open>int\<close>. The three goroutines
  started at the end have not run yet.
\<close>

definition NewOptimizer :: "int64 \<Rightarrow> runtime option" where
  "NewOptimizer numCPU =
     (case NewWorkerPool (numCPU * 2) of
        None \<Rightarrow> None
      | Some wp \<Rightarrow>
          Some \<lparr>cache = Map.empty, cacheSize = 1000, cacheTTL = 15 * Minute,
                batchQueue = [], batchSize = 10, batchDelay = 100 * Millisecond,
                workerPool = wp,
                metrics = \<lparr>totalRequests = 0, cacheHits = 0, avgDuration = 0, peakMemory = 0\<rparr>,
                chans = (\<lambda>c. []), nextChan = 0, batch = [], cleaner = Idle,
                executions = [], flushes = []\<rparr>)"

section \<open>Metrics and cache entries (optimizer.go, lines 310 to 399)\<close>

definition IsExpired :: "time \<Rightarrow> CacheEntry \<Rightarrow> bool" where
  "IsExpired now ce = (15 * Minute <s Since now (entry_Timestamp ce))"

definition recordRequest :: "duration \<Rightarrow> runtime \<Rightarrow> runtime" where
  "recordRequest d s =
     (let m = metrics s;
          m1 = m\<lparr>totalRequests := totalRequests m + 1\<rparr>;
          m2 = (if avgDuration m1 = 0 then m1\<lparr>avgDuration := d\<rparr>
                else m1\<lparr>avgDuration := div64 (avgDuration m1 + d) 2\<rparr>)
      in s\<lparr>metrics := m2\<rparr>)"

definition recordCacheHit :: "runtime \<Rightarrow> runtime" where
  "recordCacheHit s = s\<lparr>metrics := (metrics s)\<lparr>cacheHits := cacheHits (metrics s) + 1\<rparr>\<rparr>"

text \<open>
  \<open>getCacheHitRate\<close> converts the two counters to \<open>float64\<close> and divides there.
  A \<open>float64\<close> has 53 significant bits, and conversion and division round the exact
  result to the nearest such number, to the one with an even last bit when two are
  equally near. \<open>bitLen n\<close> is the number of bits of a positive \<open>n\<close>;
  \<open>roundHalfEven a b\<close> is the integer nearest to \<open>a / b\<close> for a positive \<open>b\<close>, the
  even one of two; \<open>round53 a b\<close> rounds \<open>a / b\<close>, not negative, to a multiple of the
  power of two that leaves 53 bits, when its integer part has at least that many, and
  to an integer otherwise.
\<close>

function bitLen :: "int \<Rightarrow> nat" where
  "bitLen n = (if n \<le> 0 then 0 else Suc (bitLen (n div 2)))"
  by pat_completeness auto

termination bitLen
  by (relation "measure nat") auto

declare bitLen.simps [simp del]

definition roundHalfEven :: "int \<Rightarrow> int \<Rightarrow> int" where
  "roundHalfEven a b =
     (let q = a div b; r = a mod b
      in if 2 * r < b then q
         else if b < 2 * r then q + 1
         else if even q then q else q + 1)"

definition round53 :: "int \<Rightarrow> int \<Rightarrow> int" where
  "round53 a b =
     (let sh = bitLen (a div b) - 53
      in roundHalfEven a (b * 2 ^ sh) * 2 ^ sh)"

text \<open>
  \<open>float64(n)\<close> for an \<open>int64\<close> \<open>n\<close>: the value is an integer again. \<open>x / y\<close> for
  two \<open>float64\<close> that hold integers of magnitude at most \<open>2^63\<close>, \<open>y\<close> not 0, as the
  two conversions give them: the quotient is scaled by \<open>2^117\<close>, which gives it an
  integer part of at least 55 bits, rounded there, and scaled back; a quotient of this
  range neither overflows nor is subnormal.
\<close>

definition float64 :: "int \<Rightarrow> int" where
  "float64 n = (if n < 0 then - round53 (- n) 1 else round53 n 1)"

definition float64_div :: "int \<Rightarrow> int \<Rightarrow> real" where
  "float64_div x y =
     (let q = real_of_int (round53 (\<bar>x\<bar> * 2 ^ 117) \<bar>y\<bar>) / 2 ^ 117
      in if (x < 0) = (y < 0) then q else - q)"

definition getCacheHitRate :: "runtime \<Rightarrow> real" where
  "getCacheHitRate s =
     (if totalRequests (metrics s) = 0 then 0
      else float64_div (float64 (sint (cacheHits (metrics s))))
                       (float64 (sint (totalRequests (metrics s)))))"

text \<open>
  \<open>cleanCache\<close> (lines 322 to 340). At each tick \<open>Range\<close> calls the callback once for
  each key present, with a value that was stored under the key at some moment of the
  call of \<open>Range\<close>; the callback tests the value it was given and then deletes
  whatever is under the key. Between reading the value, testing it and deleting, the
  other goroutines run, so these are three steps: \<open>Range\<close> reads the value under a
  key and enters the callback; the callback evaluates \<open>entry.IsExpired()\<close> (the type
  assertion holds, since only \<open>*CacheEntry\<close> is ever stored) and leaves when the entry
  is not expired; \<open>opt.cache.Delete(key)\<close>. The counter \<open>count\<close> only feeds the log.
\<close>

definition cleanCache_load :: "string \<Rightarrow> runtime \<Rightarrow> runtime option" where
  "cleanCache_load key s =
     (case cleaner s of
        Idle \<Rightarrow> (case cache s key of
                   None \<Rightarrow> None
                 | Some entry \<Rightarrow> Some (s\<lparr>cleaner := Loaded key entry\<rparr>))
      | _ \<Rightarrow> None)"

definition cleanCache_test :: "time \<Rightarrow> runtime \<Rightarrow> runtime option" where
  "cleanCache_test now s =
     (case cleaner s of
        Loaded key entry \<Rightarrow>
          Some (s\<lparr>cleaner := (if IsExpired now entry then Expired key else Idle)\<rparr>)
      | _ \<Rightarrow> None)"

definition cleanCache_delete :: "runtime \<Rightarrow> runtime option" where
  "cleanCache_delete s =
     (case cleaner s of
        Expired key \<Rightarrow> Some (s\<lparr>cache := (cache s)(key := None), cleaner := Idle\<rparr>)
      | _ \<Rightarrow> None)"

section \<open>OptimizeCommand (optimizer.go, lines 130 to 182)\<close>

text \<open>
  \<open>OptimizeCommand\<close> suspends twice, at its two \<open>select\<close> statements, so it is three
  stretches of code. \<open>start\<close> is the reading of line 132 and \<open>now\<close> the clock while
  the stretch runs.

  Lines 134 to 145, the cache check: \<open>None\<close> means that control goes on to line 147.
\<close>

definition OptimizeCommand_cached ::
  "time \<Rightarrow> time \<Rightarrow> string \<Rightarrow> string \<Rightarrow> runtime \<Rightarrow> (OptimizedResponse \<times> runtime) option" where
  "OptimizeCommand_cached start now sessionID command s =
     (case cache s (cacheKey sessionID command) of
        None \<Rightarrow> None
      | Some entry \<Rightarrow>
          if \<not> IsExpired now entry
          then Some (\<lparr>Result = Data entry, Error = None, CacheHit = True, BatchSize = 0,
                      Duration = Since now start\<rparr>, recordCacheHit s)
          else None)"

text \<open>
  Lines 147 to 163: the request gets a fresh channel. When \<open>batchQueue\<close> (capacity
  100) has room the send is ready at once and the timer is not; when it is full and
  stays so for \<open>batchDelay\<close>, the timer fires and the caller itself runs
  \<open>processSingleRequest\<close>. (A send that goes through because the collector made room
  in time is the collector's step followed by this one.)
\<close>

definition OptimizeCommand_dispatch ::
  "time \<Rightarrow> ctx \<Rightarrow> string \<Rightarrow> string \<Rightarrow> runtime \<Rightarrow> OptimizedRequest \<times> runtime" where
  "OptimizeCommand_dispatch now c sessionID command s =
     (let req = \<lparr>Command = command, SessionID = sessionID, Context = c,
                 Response = nextChan s, Timestamp = now\<rparr>;
          s1 = s\<lparr>nextChan := nextChan s + 1\<rparr>
      in if length (batchQueue s1) < 100
         then (req, s1\<lparr>batchQueue := batchQueue s1 @ [req]\<rparr>)
         else (req, processSingleRequest (now + sint (batchDelay s1)) req s1))"

text \<open>
  Lines 165 to 181, the wait. A \<open>select\<close> with one ready case takes it; with both
  ready Go picks one at random, which is the argument \<open>pick\<close>; with none ready the
  caller stays blocked (\<open>None\<close>). The result is the pair the Go function returns.
\<close>

datatype pick = PickResponse | PickDone

definition OptimizeCommand_wait ::
  "time \<Rightarrow> pick \<Rightarrow> ctx \<Rightarrow> time \<Rightarrow> string \<Rightarrow> OptimizedRequest \<Rightarrow> runtime \<Rightarrow>
   ((OptimizedResponse option \<times> error option) \<times> runtime) option" where
  "OptimizeCommand_wait now pk c start key req s =
     (let respReady = (chans s (Response req) \<noteq> []);
          doneReady = ctxDone c now
      in if respReady \<and> (\<not> doneReady \<or> pk = PickResponse) then
           (let resp = hd (chans s (Response req));
                s1 = (if Error resp = None \<and> \<not> CacheHit resp
                      then s\<lparr>cache := (cache s)(key \<mapsto>
                                \<lparr>Data = Result resp, entry_Timestamp = now\<rparr>)\<rparr>
                      else s)
            in Some ((Some resp, None), recordRequest (Since now start) s1))
         else if doneReady then Some ((None, Some (cause c)), s)
         else None)"

section \<open>The goroutines together\<close>

text \<open>
  The optimizer runs as an interleaving of steps, each at a clock reading:
  \<^item> \<open>Call c sessionID command\<close>: a caller runs lines 132 to 163 (and returns at
    once on a cache hit);
  \<^item> \<open>Return pk start req\<close>: the caller that made \<open>req\<close> leaves its wait;
  \<^item> \<open>Receive\<close>: \<open>processBatches\<close> takes the \<open>batchQueue\<close> case (lines 193 to 200);
  \<^item> \<open>Tick\<close>: \<open>processBatches\<close> takes the ticker case (lines 202 to 207);
  \<^item> \<open>SweepLoad key\<close>, \<open>SweepTest\<close>, \<open>SweepDelete\<close>: the three steps of
    \<open>cleanCache\<close> on one key. A sweep is a sequence of them, one visit for each key
    present, in an order \<open>Range\<close> does not fix; the steps are not tied to the ticker,
    so the runs below include those of the code.
  A step that cannot happen in the state (a receive from an empty queue, a return
  with nothing ready) is \<open>None\<close>. The fourth goroutine, \<open>collectMetrics\<close>, writes
  \<open>peakMemory\<close> only and reads the counters for the log; it is not among the steps.
\<close>

datatype event =
    Call ctx string string
  | Return pick time OptimizedRequest
  | Receive
  | Tick
  | SweepLoad string
  | SweepTest
  | SweepDelete

definition flush :: "time \<Rightarrow> trigger \<Rightarrow> runtime \<Rightarrow> runtime" where
  "flush now trig s =
     (processBatch now (batch s) (s\<lparr>flushes := flushes s @ [(trig, batch s)]\<rparr>))\<lparr>batch := []\<rparr>"

definition step :: "time \<Rightarrow> event \<Rightarrow> runtime \<Rightarrow> runtime option" where
  "step now ev s =
     (case ev of
        Call c sessionID command \<Rightarrow>
          (case OptimizeCommand_cached now now sessionID command s of
             Some (resp, s') \<Rightarrow> Some s'
           | None \<Rightarrow> Some (snd (OptimizeCommand_dispatch now c sessionID command s)))
      | Return pk start req \<Rightarrow>
          map_option snd
            (OptimizeCommand_wait now pk (Context req) start
               (cacheKey (SessionID req) (Command req)) req s)
      | Receive \<Rightarrow>
          (case batchQueue s of
             [] \<Rightarrow> None
           | req # rest \<Rightarrow>
               (let s1 = s\<lparr>batchQueue := rest, batch := batch s @ [req]\<rparr>
                in if int (length (batch s1)) \<ge> batchSize s1
                   then Some (flush now BySize s1)
                   else Some s1))
      | Tick \<Rightarrow> if length (batch s) > 0 then Some (flush now ByTimer s) else Some s
      | SweepLoad key \<Rightarrow> cleanCache_load key s
      | SweepTest \<Rightarrow> cleanCache_test now s
      | SweepDelete \<Rightarrow> cleanCache_delete s)"

fun run :: "(time \<times> event) list \<Rightarrow> runtime \<Rightarrow> runtime option" where
  "run [] s = Some s"
| "run ((now, ev) # evs) s =
     (case step now ev s of None \<Rightarrow> None | Some s' \<Rightarrow> run evs s')"

text \<open>
  One call of \<open>OptimizeCommand\<close> from entry to return: \<open>t_start\<close> and \<open>t_call\<close> are
  the clock at line 132 and during lines 134 to 163, \<open>between\<close> is what the other
  goroutines do while the caller waits, \<open>t_wake\<close> the clock when its \<open>select\<close> is
  decided and \<open>choice\<close> what the \<open>select\<close> picks if both cases are ready. \<open>None\<close>:
  the schedule is not one the code can follow, or the caller is still blocked.
\<close>

record schedule =
  t_start :: time
  t_call :: time
  between :: "(time \<times> event) list"
  t_wake :: time
  choice :: pick

definition OptimizeCommand ::
  "schedule \<Rightarrow> ctx \<Rightarrow> string \<Rightarrow> string \<Rightarrow> runtime \<Rightarrow>
   ((OptimizedResponse option \<times> error option) \<times> runtime) option" where
  "OptimizeCommand sched c sessionID command s =
     (case OptimizeCommand_cached (t_start sched) (t_call sched) sessionID command s of
        Some (resp, s') \<Rightarrow> Some ((Some resp, None), s')
      | None \<Rightarrow>
          (let (req, s1) = OptimizeCommand_dispatch (t_call sched) c sessionID command s
           in case run (between sched) s1 of
                None \<Rightarrow> None
              | Some s2 \<Rightarrow>
                  OptimizeCommand_wait (t_wake sched) (choice sched) c (t_start sched)
                    (cacheKey sessionID command) req s2))"

section \<open>What a batch delivers\<close>

text \<open>
  The two records the processing functions send, and the response that a request of a
  batch is due: the combined one for a request of type \<open>analyze\<close>, with the number of
  requests of the batch that share its target, and the single one otherwise.
\<close>

definition singleResponse :: "time \<Rightarrow> OptimizedRequest \<Rightarrow> OptimizedResponse" where
  "singleResponse now req =
     \<lparr>Result = ''Processed: '' @ Command req, Error = None, CacheHit = False, BatchSize = 1,
      Duration = Since now (Timestamp req)\<rparr>"

definition combinedResponse :: "time \<Rightarrow> string \<Rightarrow> nat \<Rightarrow> OptimizedRequest \<Rightarrow> OptimizedResponse" where
  "combinedResponse now target n req =
     \<lparr>Result = combinedResult target n, Error = None, CacheHit = False, BatchSize = int n,
      Duration = Since now (Timestamp req)\<rparr>"

definition sharing :: "OptimizedRequest list \<Rightarrow> string \<Rightarrow> OptimizedRequest list" where
  "sharing batch' target =
     filter (\<lambda>req. extractCommandType (Command req) = ''analyze'' \<and>
                    extractTarget (Command req) = target) batch'"

definition batchResponse :: "time \<Rightarrow> OptimizedRequest list \<Rightarrow> OptimizedRequest \<Rightarrow> OptimizedResponse" where
  "batchResponse now batch' req =
     (if extractCommandType (Command req) = ''analyze''
      then combinedResponse now (extractTarget (Command req))
             (length (sharing batch' (extractTarget (Command req)))) req
      else singleResponse now req)"

text \<open>
  What one group sends on channel \<open>c\<close>, and the executions it logs, read off
  \<open>processCommandGroup\<close>.
\<close>

definition groupSends :: "time \<Rightarrow> nat \<Rightarrow> string \<Rightarrow> OptimizedRequest list \<Rightarrow> OptimizedResponse list" where
  "groupSends now c cmdType reqs =
     (if cmdType = ''analyze''
      then concat (map (\<lambda>tr. map (combinedResponse now (fst tr) (length (snd tr)))
                               (filter (\<lambda>req. Response req = c) (snd tr)))
                       (groupBy (\<lambda>req. extractTarget (Command req)) reqs))
      else map (singleResponse now) (filter (\<lambda>req. Response req = c) reqs))"

definition groupExecutions :: "string \<Rightarrow> OptimizedRequest list \<Rightarrow> execution list" where
  "groupExecutions cmdType reqs =
     (if cmdType = ''analyze''
      then map (\<lambda>tr. ExecCombined (fst tr) (length (snd tr)))
               (groupBy (\<lambda>req. extractTarget (Command req)) reqs)
      else map (\<lambda>req. ExecSingle (Command req)) reqs)"

section \<open>Invariants\<close>



text \<open>
  \<open>size_inv\<close>: the buffer is below the batch size between two steps, and every flush
  by size took a batch of exactly that size.
\<close>

definition size_inv :: "runtime \<Rightarrow> bool" where
  "size_inv s \<longleftrightarrow>
     0 < batchSize s \<and> int (length (batch s)) < batchSize s \<and>
     (\<forall>b. (BySize, b) \<in> set (flushes s) \<longrightarrow> int (length b) = batchSize s)"


section \<open>Scenarios and observations\<close>

text \<open>
  The concrete inputs of the examples below: \<open>context.Background()\<close>, which is never
  done, and a context cancelled at a given instant; a request of session \<open>s1\<close> on a
  given channel; a new optimizer taken through given steps; the callers of session
  \<open>s1\<close> submitting commands at once, the collector receiving them all and its ticker
  firing after \<open>batchDelay\<close>; a hundred callers filling \<open>batchQueue\<close> while the
  collector does not receive; and the group sizes reported on given channels.
\<close>

definition background :: ctx where
  "background = \<lparr>doneAt = None, cause = Canceled\<rparr>"

definition cancelled :: "time \<Rightarrow> ctx" where
  "cancelled t = \<lparr>doneAt = Some t, cause = Canceled\<rparr>"

definition request :: "string \<Rightarrow> nat \<Rightarrow> OptimizedRequest" where
  "request command c =
     \<lparr>Command = command, SessionID = ''s1'', Context = background, Response = c, Timestamp = 0\<rparr>"

definition started :: "int64 \<Rightarrow> (time \<times> event) list \<Rightarrow> runtime option" where
  "started numCPU evs = (case NewOptimizer numCPU of None \<Rightarrow> None | Some s0 \<Rightarrow> run evs s0)"

definition submitAndCollect :: "string list \<Rightarrow> (time \<times> event) list" where
  "submitAndCollect commands =
     map (\<lambda>command. (0, Call background ''s1'' command)) commands @
     replicate (length commands) (1, Receive) @ [(100000000, Tick)]"

definition fullQueue :: "(time \<times> event) list" where
  "fullQueue = replicate 100 (0, Call background ''s0'' ''/user:build B'')"

definition sizesReported :: "nat list \<Rightarrow> runtime \<Rightarrow> int list list" where
  "sizesReported cs s = map (\<lambda>c. map BatchSize (chans s c)) cs"

text \<open>
  A store that meets a visit of the cache cleaner. The optimizer is made at 0, so the
  collector's ticker fires at the multiples of 100 ms and the cleaner's at the multiples
  of 5 minutes. One request is executed and its result stored at 0.100000001 s. At
  1199.9 s the entry is older than 15 minutes: a second call for the same key misses and
  is dispatched, and the collector processes it at 1200 s. At 1200 s the cleaner's
  ticker fires as well and \<open>Range\<close> reads the old entry for the callback; then the
  second caller returns and stores the new result (\<open>storeInVisit\<close>); then the callback
  runs its test and its \<open>Delete\<close> (\<open>visitCompleted\<close>). \<open>storeAlone\<close> is the same run
  without the cleaner. \<open>storedAfter\<close> and \<open>lookupAfter\<close> observe, after a run, the
  entry under a key and what the cache check of \<open>OptimizeCommand\<close> returns.
\<close>

definition secondRequest :: OptimizedRequest where
  "secondRequest = (request ''/user:build A'' 1)\<lparr>Timestamp := 1199900000000\<rparr>"

definition storeAlone :: "(time \<times> event) list" where
  "storeAlone =
     submitAndCollect [''/user:build A''] @
     [(100000001, Return PickResponse 0 (request ''/user:build A'' 0)),
      (1199900000000, Call background ''s1'' ''/user:build A''),
      (1199900000001, Receive),
      (1200000000000, Tick),
      (1200000000001, Return PickResponse 1199900000000 secondRequest)]"

definition storeInVisit :: "(time \<times> event) list" where
  "storeInVisit =
     submitAndCollect [''/user:build A''] @
     [(100000001, Return PickResponse 0 (request ''/user:build A'' 0)),
      (1199900000000, Call background ''s1'' ''/user:build A''),
      (1199900000001, Receive),
      (1200000000000, Tick),
      (1200000000000, SweepLoad (cacheKey ''s1'' ''/user:build A'')),
      (1200000000001, Return PickResponse 1199900000000 secondRequest)]"

definition visitCompleted :: "(time \<times> event) list" where
  "visitCompleted = storeInVisit @ [(1200000000002, SweepTest), (1200000000003, SweepDelete)]"

definition storedAfter :: "(time \<times> event) list \<Rightarrow> string \<Rightarrow> CacheEntry option option" where
  "storedAfter evs key = map_option (\<lambda>s. cache s key) (started 4 evs)"

definition lookupAfter ::
  "(time \<times> event) list \<Rightarrow> time \<Rightarrow> string \<Rightarrow> string \<Rightarrow> OptimizedResponse option option" where
  "lookupAfter evs now sessionID command =
     map_option (\<lambda>s. map_option fst (OptimizeCommand_cached now now sessionID command s))
       (started 4 evs)"

text \<open>A new optimizer whose counters have been set to given values.\<close>

definition withCounters :: "int64 \<Rightarrow> int64 \<Rightarrow> runtime option" where
  "withCounters hits requests =
     map_option (\<lambda>s. s\<lparr>metrics := (metrics s)\<lparr>cacheHits := hits, totalRequests := requests\<rparr>\<rparr>)
       (NewOptimizer 4)"

section \<open>Notions of the specification\<close>

text \<open>
  The specification partitions a batch by "the leading token of the command string",
  the first token when the string is cut at white space.
\<close>

definition isSpace :: "char \<Rightarrow> bool" where
  "isSpace c \<longleftrightarrow> c \<in> set [CHR '' '', CHR 0x09, CHR 0x0A, CHR 0x0B, CHR 0x0C, CHR 0x0D]"

definition leadingToken :: "string \<Rightarrow> string" where
  "leadingToken s = takeWhile (\<lambda>c. \<not> isSpace c) (dropWhile isSpace s)"

text \<open>
  An execution is for a request when it computes the result that the request is sent:
  a single execution of the request's command, or the combined analysis of its target
  when the request is of type \<open>analyze\<close>.
\<close>

definition executedFor :: "OptimizedRequest \<Rightarrow> execution \<Rightarrow> bool" where
  "executedFor req e =
     (case e of
        ExecSingle command \<Rightarrow> command = Command req
      | ExecCombined target n \<Rightarrow>
          extractCommandType (Command req) = ''analyze'' \<and> target = extractTarget (Command req))"

text \<open>
  A step that may store under a cache key: the return of a caller whose request has
  this key (lines 168 to 174).
\<close>

definition storesTo :: "string \<Rightarrow> event \<Rightarrow> bool" where
  "storesTo key ev =
     (case ev of
        Return pk start req \<Rightarrow> cacheKey (SessionID req) (Command req) = key
      | _ \<Rightarrow> False)"

text \<open>The cache cleaner is in the middle of a visit to a key.\<close>

definition visiting :: "visit \<Rightarrow> string \<Rightarrow> bool" where
  "visiting v key = (case v of Idle \<Rightarrow> False | Loaded k entry \<Rightarrow> k = key | Expired k \<Rightarrow> k = key)"



section \<open>Splitting\<close>

lemma Split_nonempty: "Split s sep \<noteq> []"
  by (induction s) (auto split: list.splits)

lemma hd_Split: "hd (Split s sep) = takeWhile (\<lambda>c. c \<noteq> sep) s"
  by (induction s) (auto split: list.splits simp: Split_nonempty)

lemma Split_nth0: "Split s sep ! 0 = takeWhile (\<lambda>c. c \<noteq> sep) s"
  using hd_Split [of s sep] Split_nonempty [of s sep] by (simp add: hd_conv_nth)

lemma extractCommandType_eq:
  "extractCommandType command =
     (let part = takeWhile (\<lambda>c. c \<noteq> CHR '' '') command
      in if take 6 part = ''/user:'' then drop 6 part else ''unknown'')"
  by (simp add: extractCommandType_def Split_nth0 Split_nonempty HasPrefix_def TrimPrefix_def Let_def eval_nat_numeral)

section \<open>Grouping\<close>

lemma map_of_appendGroup:
  "map_of (appendGroup k v m) =
     (map_of m)(k \<mapsto> (case map_of m k of None \<Rightarrow> [v] | Some vs \<Rightarrow> vs @ [v]))"
  by (induction k v m rule: appendGroup.induct) (auto simp: fun_eq_iff)

lemma keys_appendGroup:
  "map fst (appendGroup k v m) = (if k \<in> fst ` set m then map fst m else map fst m @ [k])"
  by (induction k v m rule: appendGroup.induct) (auto)

lemma distinct_appendGroup:
  "distinct (map fst m) \<Longrightarrow> distinct (map fst (appendGroup k v m))"
  by (simp add: keys_appendGroup)

lemma foldl_appendGroup:
  "map_of (foldl (\<lambda>m x. appendGroup (key x) x m) m0 xs) k =
     (case map_of m0 k of
        None \<Rightarrow> if k \<in> key ` set xs then Some (filter (\<lambda>x. key x = k) xs) else None
      | Some vs \<Rightarrow> Some (vs @ filter (\<lambda>x. key x = k) xs))"
proof (induction xs arbitrary: m0)
  case Nil
  then show ?case by (simp split: option.splits)
next
  case (Cons x xs)
  show ?case
    by (simp add: Cons.IH map_of_appendGroup split: option.splits)
qed

lemma foldl_appendGroup_distinct:
  "distinct (map fst m0) \<Longrightarrow> distinct (map fst (foldl (\<lambda>m x. appendGroup (key x) x m) m0 xs))"
  by (induction xs arbitrary: m0) (simp_all add: distinct_appendGroup)

lemma foldl_appendGroup_keys:
  "set (map fst (foldl (\<lambda>m x. appendGroup (key x) x m) m0 xs)) = fst ` set m0 \<union> key ` set xs"
proof (induction xs arbitrary: m0)
  case Nil
  then show ?case by simp
next
  case (Cons x xs)
  have "set (map fst (appendGroup (key x) x m0)) = insert (key x) (fst ` set m0)"
    by (simp only: keys_appendGroup) auto
  then show ?case using Cons.IH [of "appendGroup (key x) x m0"] by auto
qed

lemma distinct_groupBy: "distinct (map fst (groupBy key xs))"
  by (simp add: groupBy_def foldl_appendGroup_distinct)

lemma map_of_groupBy:
  "map_of (groupBy key xs) k =
     (if k \<in> key ` set xs then Some (filter (\<lambda>x. key x = k) xs) else None)"
  by (simp add: groupBy_def foldl_appendGroup)

lemma groupBy_member:
  "(k, vs) \<in> set (groupBy key xs) \<longleftrightarrow> k \<in> key ` set xs \<and> vs = filter (\<lambda>x. key x = k) xs"
proof -
  have "(k, vs) \<in> set (groupBy key xs) \<longleftrightarrow> map_of (groupBy key xs) k = Some vs"
    using distinct_groupBy [of key xs] by simp
  also have "\<dots> \<longleftrightarrow> k \<in> key ` set xs \<and> vs = filter (\<lambda>x. key x = k) xs"
    unfolding map_of_groupBy by auto
  finally show ?thesis .
qed

lemma groupBy_eq:
  "groupBy key xs = map (\<lambda>k. (k, filter (\<lambda>x. key x = k) xs)) (map fst (groupBy key xs))"
proof -
  have "\<And>g. g \<in> set (groupBy key xs) \<Longrightarrow> (fst g, filter (\<lambda>x. key x = fst g) xs) = g"
  proof -
    fix g assume "g \<in> set (groupBy key xs)"
    then have "(fst g, snd g) \<in> set (groupBy key xs)" by simp
    then have "snd g = filter (\<lambda>x. key x = fst g) xs" unfolding groupBy_member by simp
    then show "(fst g, filter (\<lambda>x. key x = fst g) xs) = g" by (simp add: prod_eq_iff)
  qed
  then have "map (\<lambda>g. (fst g, filter (\<lambda>x. key x = fst g) xs)) (groupBy key xs) = groupBy key xs"
    by (rule map_idI)
  then show ?thesis by (simp add: comp_def)
qed

section \<open>The cache key\<close>

lemma cacheKey_takeWhile:
  "CHR '':'' \<notin> set s \<Longrightarrow> takeWhile (\<lambda>c. c \<noteq> CHR '':'') (cacheKey s c) = s"
  unfolding cacheKey_def by (induction s) auto

text \<open>
  Claim C4, as stated: the key \<open>sessionID + ":" + command\<close> is different for
  different pairs. It is not: a colon in the session identifier moves the cut. The
  session \<open>s1\<close> asking \<open>/user:build A\<close> and the session \<open>s1:/user\<close> asking
  \<open>build A\<close> share the key \<open>s1:/user:build A\<close>.
\<close>

theorem cacheKey_collision:
  "(''s1'', ''/user:build A'') \<noteq> (''s1:/user'', ''build A'') \<and>
   cacheKey ''s1'' ''/user:build A'' = cacheKey ''s1:/user'' ''build A''"
  by (simp add: cacheKey_def)

text \<open>
  Claim C4, amended: among session identifiers that contain no colon, different pairs
  of session identifier and command have different keys; and within one session,
  whatever its identifier, different commands have different keys.
\<close>

theorem cacheKey_injective_without_colon:
  "(CHR '':'' \<notin> set s1 \<and> CHR '':'' \<notin> set s2 \<and> (s1, c1) \<noteq> (s2, c2) \<longrightarrow>
      cacheKey s1 c1 \<noteq> cacheKey s2 c2) \<and>
   (c1 \<noteq> c2 \<longrightarrow> cacheKey s c1 \<noteq> cacheKey s c2)"
proof (intro conjI impI notI)
  assume a: "CHR '':'' \<notin> set s1 \<and> CHR '':'' \<notin> set s2 \<and> (s1, c1) \<noteq> (s2, c2)"
    and eq: "cacheKey s1 c1 = cacheKey s2 c2"
  from a have a1: "CHR '':'' \<notin> set s1" and a2: "CHR '':'' \<notin> set s2"
    and ne: "(s1, c1) \<noteq> (s2, c2)" by simp_all
  have "takeWhile (\<lambda>c. c \<noteq> CHR '':'') (cacheKey s1 c1) =
        takeWhile (\<lambda>c. c \<noteq> CHR '':'') (cacheKey s2 c2)"
    by (simp only: eq)
  then have s: "s1 = s2"
    by (simp only: cacheKey_takeWhile [OF a1] cacheKey_takeWhile [OF a2])
  from eq have "c1 = c2" unfolding cacheKey_def s by simp
  with s ne show False by simp
next
  assume "c1 \<noteq> c2" "cacheKey s c1 = cacheKey s c2"
  then show False by (simp add: cacheKey_def)
qed

theorem cacheKey_injective_without_colon_witness:
  "CHR '':'' \<notin> set ''s1'' \<and> CHR '':'' \<notin> set ''s2'' \<and>
   (''s1'', ''/user:build A'') \<noteq> (''s2'', ''/user:build A'') \<and>
   cacheKey ''s1'' ''/user:build A'' \<noteq> cacheKey ''s2'' ''/user:build A'' \<and>
   ''/user:build A'' \<noteq> ''/user:build B'' \<and>
   cacheKey ''a:b'' ''/user:build A'' \<noteq> cacheKey ''a:b'' ''/user:build B''"
  using cacheKey_injective_without_colon
    [of "''s1''" "''s2''" "''/user:build A''" "''/user:build A''"]
    cacheKey_injective_without_colon
    [of _ _ "''/user:build A''" "''/user:build B''" "''a:b''"]
  by simp

section \<open>Time and division\<close>

lemma sint_word_of_int64:
  "- 9223372036854775808 \<le> x \<Longrightarrow> x \<le> 9223372036854775807 \<Longrightarrow>
   sint (word_of_int x :: 64 word) = x"
  by (simp add: sint_sbintrunc' signed_take_bit_int_eq_self)

lemma sint_Sub:
  "sint (Sub t u) = max (- 9223372036854775808) (min 9223372036854775807 (t - u))"
proof -
  define d where "d = t - u"
  have "sint (if d > 9223372036854775807 then word_of_int 9223372036854775807
              else if d < - 9223372036854775808 then word_of_int (- 9223372036854775808)
              else (word_of_int d :: 64 word)) =
        max (- 9223372036854775808) (min 9223372036854775807 d)"
    using sint_word_of_int64 [of d] by auto
  then show ?thesis unfolding Sub_def Let_def d_def .
qed

lemma IsExpired_iff:
  "IsExpired now ce \<longleftrightarrow> 900000000000 < now - entry_Timestamp ce"
proof -
  have "sint (15 * Minute :: 64 word) = 900000000000" by (simp add: Minute_def)
  then show ?thesis
    unfolding IsExpired_def Since_def word_sless_alt sint_Sub by auto
qed

lemma div64_2:
  assumes "- 9223372036854775808 \<le> sint a + sint d" "sint a + sint d \<le> 9223372036854775807"
  shows "sint (div64 (a + d) 2) = (sint a + sint d) sdiv 2"
proof -
  have s: "sint (a + d) = sint a + sint d"
    using assms by (simp add: sint_word_add signed_take_bit_int_eq_self)
  have two: "sint (2 :: 64 word) = 2" by simp
  have b: "- 9223372036854775808 \<le> (sint a + sint d) sdiv 2 \<and> (sint a + sint d) sdiv 2 \<le> 9223372036854775807"
    using assms by (auto simp: signed_divide_int_def sgn_if)
  show ?thesis unfolding div64_def s two using b by (simp add: sint_word_of_int64)
qed

section \<open>Rounding to 53 bits\<close>

lemma bitLen_bounds: "0 < n \<Longrightarrow> 2 ^ (bitLen n - 1) \<le> n \<and> n < 2 ^ bitLen n"
proof (induction n rule: bitLen.induct)
  case (1 n)
  show ?case
  proof (cases "n div 2 \<le> 0")
    case True
    with 1(2) have "n = 1" by presburger
    then show ?thesis by (simp add: bitLen.simps)
  next
    case False
    then have pos: "0 < n div 2" by simp
    have nn: "\<not> n \<le> 0" using 1(2) by simp
    from 1(1) [OF nn pos] have ih: "2 ^ (bitLen (n div 2) - 1) \<le> n div 2"
      "n div 2 < 2 ^ bitLen (n div 2)"
      by auto
    have b: "bitLen n = Suc (bitLen (n div 2))" using 1(2) by (subst bitLen.simps) simp
    have bp: "0 < bitLen (n div 2)" using pos by (subst bitLen.simps) simp
    have "(2 :: int) ^ (bitLen n - 1) = 2 * 2 ^ (bitLen (n div 2) - 1)"
      using bp by (simp add: b power_eq_if)
    also have "\<dots> \<le> 2 * (n div 2)" using ih(1) by simp
    also have "\<dots> \<le> n" by presburger
    finally have lo: "2 ^ (bitLen n - 1) \<le> n" .
    have "n < 2 * (n div 2) + 2" by presburger
    also have "\<dots> \<le> 2 * 2 ^ bitLen (n div 2)" using ih(2) by simp
    finally have "n < 2 ^ bitLen n" by (simp add: b)
    with lo show ?thesis by simp
  qed
qed

lemma bitLen_le:
  assumes "0 \<le> n" "n < 2 ^ k"
  shows "bitLen n \<le> k"
proof (cases "n = 0")
  case True
  then show ?thesis by (simp add: bitLen.simps)
next
  case False
  with assms(1) have "0 < n" by simp
  from bitLen_bounds [OF this] have "2 ^ (bitLen n - 1) \<le> n" by simp
  with assms(2) have "(2 :: int) ^ (bitLen n - 1) < 2 ^ k" by linarith
  then have "bitLen n - 1 < k" by (simp add: power_strict_increasing_iff)
  then show ?thesis by simp
qed

lemma bitLen_ge:
  assumes "2 ^ k \<le> n"
  shows "k < bitLen n"
proof -
  have "0 < n" using assms by (smt (verit) zero_less_power)
  from bitLen_bounds [OF this] have "n < 2 ^ bitLen n" by simp
  with assms have "(2 :: int) ^ k < 2 ^ bitLen n" by linarith
  then show ?thesis by (simp add: power_strict_increasing_iff)
qed

lemma roundHalfEven_err:
  assumes "0 < b"
  shows "\<bar>2 * (roundHalfEven a b * b - a)\<bar> \<le> b"
proof -
  define q where "q = a div b"
  define r where "r = a mod b"
  have a': "a = q * b + r" using q_def r_def by simp
  have r: "0 \<le> r" "r < b" using assms by (simp_all add: r_def)
  have "\<bar>2 * (roundHalfEven a b * b - (q * b + r))\<bar> \<le> b"
    using r unfolding roundHalfEven_def Let_def q_def [symmetric] r_def [symmetric]
    by (auto simp: algebra_simps)
  then show ?thesis using a' by simp
qed

lemma round53_small:
  assumes "0 \<le> n" "n < 9007199254740992"
  shows "round53 n 1 = n"
proof -
  have "n < 2 ^ 53" using assms(2) by simp
  from bitLen_le [OF assms(1) this] have "bitLen n - 53 = 0" by simp
  then show ?thesis by (simp add: round53_def roundHalfEven_def)
qed

lemma float64_small:
  assumes "\<bar>n\<bar> < 9007199254740992"
  shows "float64 n = n"
  using assms round53_small [of n] round53_small [of "- n"] by (auto simp: float64_def)

lemma round53_err:
  assumes a: "0 < a" and b: "0 < b" and big: "2 ^ 52 * b \<le> a"
  shows "\<bar>real_of_int (round53 a b) - real_of_int a / real_of_int b\<bar>
           \<le> (real_of_int a / real_of_int b) / 2 ^ 53"
proof -
  define n where "n = a div b"
  define L where "L = bitLen n"
  define sh where "sh = L - 53"
  define D where "D = b * 2 ^ sh"
  define m where "m = roundHalfEven a D"
  have r: "round53 a b = m * 2 ^ sh"
    by (simp add: round53_def Let_def n_def L_def sh_def D_def m_def)
  have n52: "2 ^ 52 \<le> n"
  proof -
    have "(2 ^ 52 * b) div b \<le> a div b" using big by (rule zdiv_mono1) (rule b)
    then show ?thesis using b by (simp add: n_def)
  qed
  then have npos: "0 < n" by simp
  have L53: "52 < L" unfolding L_def by (rule bitLen_ge [OF n52])
  then have Lsh: "L - 1 = sh + 52" by (simp add: sh_def)
  have "2 ^ (L - 1) \<le> n" using bitLen_bounds [OF npos] by (simp add: L_def)
  then have "2 ^ (sh + 52) \<le> n" by (simp only: Lsh)
  then have "b * 2 ^ (sh + 52) \<le> b * n" using b by simp
  also have "\<dots> \<le> a"
  proof -
    have "a = b * (a div b) + a mod b" by simp
    moreover have "0 \<le> a mod b" using b by simp
    ultimately show ?thesis unfolding n_def by linarith
  qed
  finally have lo: "D * 2 ^ 52 \<le> a" by (simp add: D_def power_add mult.assoc)
  have Dpos: "0 < D" using b by (simp add: D_def)
  from roundHalfEven_err [OF Dpos, of a] have e: "\<bar>2 * (m * D - a)\<bar> \<le> D" by (simp add: m_def)
  have rb: "0 < real_of_int b" using b by simp
  have p: "(0 :: real) < 2 ^ sh" by simp
  have Dr: "real_of_int D = real_of_int b * 2 ^ sh" by (simp add: D_def)
  from e have "\<bar>2 * (real_of_int m * real_of_int D - real_of_int a)\<bar> \<le> real_of_int D"
    by (metis of_int_abs of_int_diff of_int_le_iff of_int_mult of_int_numeral)
  then have e1: "\<bar>real_of_int m * real_of_int D - real_of_int a\<bar> \<le> real_of_int D / 2"
    by (simp only: abs_mult) simp
  have "real_of_int m * 2 ^ sh - real_of_int a / real_of_int b =
        (real_of_int m * real_of_int D - real_of_int a) / real_of_int b"
    using rb by (simp add: Dr field_simps)
  then have "\<bar>real_of_int m * 2 ^ sh - real_of_int a / real_of_int b\<bar> =
        \<bar>real_of_int m * real_of_int D - real_of_int a\<bar> / real_of_int b"
    using rb by (simp add: abs_divide)
  also have "\<dots> \<le> (real_of_int D / 2) / real_of_int b"
    by (intro divide_right_mono e1) (use rb in simp)
  finally have e2: "\<bar>real_of_int m * 2 ^ sh - real_of_int a / real_of_int b\<bar>
      \<le> (real_of_int D / 2) / real_of_int b" .
  from lo have "real_of_int D * 2 ^ 52 \<le> real_of_int a"
    by (metis of_int_le_iff of_int_mult of_int_numeral of_int_power)
  then have h: "real_of_int D / 2 \<le> real_of_int a / 2 ^ 53" by simp
  have "(real_of_int D / 2) / real_of_int b \<le> (real_of_int a / 2 ^ 53) / real_of_int b"
    by (intro divide_right_mono h) (use rb in simp)
  with e2 have "\<bar>real_of_int m * 2 ^ sh - real_of_int a / real_of_int b\<bar>
      \<le> (real_of_int a / 2 ^ 53) / real_of_int b" by linarith
  then show ?thesis by (simp add: r)
qed

lemma abs_scale:
  fixes u v w K :: real
  assumes "0 < K"
  shows "\<bar>u - v * K / w\<bar> / K = \<bar>u / K - v / w\<bar>"
proof -
  have "u / K - v / w = (u - v * K / w) / K" using assms by (simp add: field_simps)
  then have "\<bar>u / K - v / w\<bar> = \<bar>u - v * K / w\<bar> / \<bar>K\<bar>" by (simp only: abs_divide)
  then show ?thesis using assms by simp
qed

lemma float64_div_err:
  assumes x: "0 < x" and y: "0 < y" "y \<le> 9223372036854775808"
  shows "\<bar>float64_div x y - real_of_int x / real_of_int y\<bar>
           \<le> (real_of_int x / real_of_int y) / 2 ^ 53"
proof -
  have big: "2 ^ 52 * y \<le> x * 2 ^ 117"
  proof -
    have "2 ^ 52 * y \<le> 2 ^ 52 * 9223372036854775808" using y(2) by simp
    also have "\<dots> \<le> 1 * 2 ^ 117" by simp
    also have "\<dots> \<le> x * 2 ^ 117" using x by (intro mult_right_mono) simp_all
    finally show ?thesis .
  qed
  have ap: "0 < x * 2 ^ 117" using x by simp
  from round53_err [OF ap y(1) big]
  have "\<bar>real_of_int (round53 (x * 2 ^ 117) y) - real_of_int x * 2 ^ 117 / real_of_int y\<bar>
           \<le> (real_of_int x * 2 ^ 117 / real_of_int y) / 2 ^ 53" by simp
  then have "\<bar>real_of_int (round53 (x * 2 ^ 117) y) - real_of_int x * 2 ^ 117 / real_of_int y\<bar> / 2 ^ 117
           \<le> ((real_of_int x * 2 ^ 117 / real_of_int y) / 2 ^ 53) / 2 ^ 117"
    by (intro divide_right_mono) simp_all
  moreover have "\<bar>real_of_int (round53 (x * 2 ^ 117) y) - real_of_int x * 2 ^ 117 / real_of_int y\<bar> / 2 ^ 117
      = \<bar>real_of_int (round53 (x * 2 ^ 117) y) / 2 ^ 117 - real_of_int x / real_of_int y\<bar>"
    by (rule abs_scale) simp
  moreover have "((real_of_int x * 2 ^ 117 / real_of_int y) / 2 ^ 53) / 2 ^ 117 =
      (real_of_int x / real_of_int y) / 2 ^ 53" by simp
  ultimately have "\<bar>real_of_int (round53 (x * 2 ^ 117) y) / 2 ^ 117 - real_of_int x / real_of_int y\<bar>
      \<le> (real_of_int x / real_of_int y) / 2 ^ 53" by simp
  moreover have "float64_div x y = real_of_int (round53 (x * 2 ^ 117) y) / 2 ^ 117"
    using x y by (simp add: float64_div_def Let_def)
  ultimately show ?thesis by simp
qed

lemma float64_div_above_one:
  assumes "0 < y" "y < x" "x < 9007199254740992"
  shows "1 < float64_div x y"
proof -
  have x: "0 < x" using assms by simp
  have y: "y \<le> 9223372036854775808" using assms by simp
  let ?q = "real_of_int x / real_of_int y"
  from float64_div_err [OF x assms(1) y] have "?q - ?q / 2 ^ 53 \<le> float64_div x y" by linarith
  moreover have "1 < ?q - ?q / 2 ^ 53"
  proof -
    have i: "y * 9007199254740992 < x * 9007199254740991" using assms by simp
    have ry: "0 < real_of_int y" using assms(1) by simp
    from i have "real_of_int y * 9007199254740992 < real_of_int x * 9007199254740991"
      by (metis of_int_less_iff of_int_mult of_int_numeral)
    then have "1 < (real_of_int x * 9007199254740991 / 9007199254740992) / real_of_int y"
      using ry by (simp add: field_simps)
    also have "(real_of_int x * 9007199254740991 / 9007199254740992) / real_of_int y = ?q - ?q / 2 ^ 53"
      by (simp add: field_simps)
    finally show ?thesis .
  qed
  ultimately show ?thesis by linarith
qed

section \<open>What the processing functions leave alone\<close>

lemma fold_frame:
  assumes "\<And>x s. \<exists>ch ex. f x s = s\<lparr>chans := ch, executions := ex\<rparr>"
  shows "\<exists>ch ex. fold f xs s = s\<lparr>chans := ch, executions := ex\<rparr>"
proof (induction xs arbitrary: s)
  case Nil
  have "s = s\<lparr>chans := chans s, executions := executions s\<rparr>" by simp
  then show ?case by (metis fold_simps(1))
next
  case (Cons x xs)
  obtain ch ex where 1: "f x s = s\<lparr>chans := ch, executions := ex\<rparr>" using assms by blast
  obtain ch' ex' where 2: "fold f xs (f x s) = (f x s)\<lparr>chans := ch', executions := ex'\<rparr>"
    using Cons.IH by blast
  have "fold f (x # xs) s = s\<lparr>chans := ch', executions := ex'\<rparr>"
    by (simp add: 2) (simp add: 1)
  then show ?case by blast
qed

lemma send_frame: "\<exists>ch ex. send c r s = s\<lparr>chans := ch, executions := ex\<rparr>"
proof -
  have "send c r s = s\<lparr>chans := (chans s)(c := chans s c @ [r]), executions := executions s\<rparr>"
    by (simp add: send_def)
  then show ?thesis by blast
qed

lemma processSingleRequest_frame:
  "\<exists>ch ex. processSingleRequest now req s = s\<lparr>chans := ch, executions := ex\<rparr>"
proof -
  have "processSingleRequest now req s =
        s\<lparr>chans := (chans s)(Response req := chans s (Response req) @ [singleResponse now req]),
          executions := executions s @ [ExecSingle (Command req)]\<rparr>"
    by (simp add: processSingleRequest_def send_def singleResponse_def)
  then show ?thesis by blast
qed

lemma combineTarget_frame:
  "\<exists>ch ex. combineTarget now tr s = s\<lparr>chans := ch, executions := ex\<rparr>"
proof -
  let ?s1 = "s\<lparr>executions := executions s @ [ExecCombined (fst tr) (length (snd tr))]\<rparr>"
  have "\<exists>ch ex. combineTarget now tr s = ?s1\<lparr>chans := ch, executions := ex\<rparr>"
    unfolding combineTarget_def Let_def by (rule fold_frame) (rule send_frame)
  then obtain ch ex where "combineTarget now tr s = ?s1\<lparr>chans := ch, executions := ex\<rparr>"
    by blast
  then have "combineTarget now tr s = s\<lparr>chans := ch, executions := ex\<rparr>" by simp
  then show ?thesis by blast
qed

lemma processCommandGroup_frame:
  "\<exists>ch ex. processCommandGroup now ct reqs s = s\<lparr>chans := ch, executions := ex\<rparr>"
  unfolding processCommandGroup_def combineAnalyzeRequests_def parallelTestRequests_def Let_def
  by (auto intro!: fold_frame combineTarget_frame processSingleRequest_frame)

lemma processBatch_frame:
  "\<exists>ch ex. processBatch now b s = s\<lparr>chans := ch, executions := ex\<rparr>"
  unfolding processBatch_def Let_def
  by (rule fold_frame) (rule processCommandGroup_frame)

lemma processBatch_fields:
  "cache (processBatch now b s) = cache s"
  "batchQueue (processBatch now b s) = batchQueue s"
  "batchSize (processBatch now b s) = batchSize s"
  "batchDelay (processBatch now b s) = batchDelay s"
  "metrics (processBatch now b s) = metrics s"
  "nextChan (processBatch now b s) = nextChan s"
  "batch (processBatch now b s) = batch s"
  "flushes (processBatch now b s) = flushes s"
  "cleaner (processBatch now b s) = cleaner s"
  using processBatch_frame [of now b s] by auto

lemma processSingleRequest_fields:
  "cache (processSingleRequest now r s) = cache s"
  "batchQueue (processSingleRequest now r s) = batchQueue s"
  "batchSize (processSingleRequest now r s) = batchSize s"
  "batchDelay (processSingleRequest now r s) = batchDelay s"
  "metrics (processSingleRequest now r s) = metrics s"
  "nextChan (processSingleRequest now r s) = nextChan s"
  "batch (processSingleRequest now r s) = batch s"
  "flushes (processSingleRequest now r s) = flushes s"
  "cleaner (processSingleRequest now r s) = cleaner s"
  by (simp_all add: processSingleRequest_def send_def)

lemma flush_fields:
  "cache (flush now trig s) = cache s"
  "batchQueue (flush now trig s) = batchQueue s"
  "batchSize (flush now trig s) = batchSize s"
  "metrics (flush now trig s) = metrics s"
  "nextChan (flush now trig s) = nextChan s"
  "batch (flush now trig s) = []"
  "flushes (flush now trig s) = flushes s @ [(trig, batch s)]"
  "cleaner (flush now trig s) = cleaner s"
  by (simp_all add: flush_def processBatch_fields)

lemma cached_fields:
  assumes "OptimizeCommand_cached start now sid cmd s = Some (resp, s')"
  shows "s' = recordCacheHit s"
  using assms by (auto simp: OptimizeCommand_cached_def split: option.splits if_splits)

lemma recordCacheHit_fields:
  "cache (recordCacheHit s) = cache s"
  "batchQueue (recordCacheHit s) = batchQueue s"
  "batchSize (recordCacheHit s) = batchSize s"
  "nextChan (recordCacheHit s) = nextChan s"
  "batch (recordCacheHit s) = batch s"
  "flushes (recordCacheHit s) = flushes s"
  "chans (recordCacheHit s) = chans s"
  "executions (recordCacheHit s) = executions s"
  "cleaner (recordCacheHit s) = cleaner s"
  by (simp_all add: recordCacheHit_def)

lemma recordRequest_fields:
  "cache (recordRequest d s) = cache s"
  "batchQueue (recordRequest d s) = batchQueue s"
  "batchSize (recordRequest d s) = batchSize s"
  "nextChan (recordRequest d s) = nextChan s"
  "batch (recordRequest d s) = batch s"
  "flushes (recordRequest d s) = flushes s"
  "chans (recordRequest d s) = chans s"
  "executions (recordRequest d s) = executions s"
  "cleaner (recordRequest d s) = cleaner s"
  by (simp_all add: recordRequest_def Let_def)

lemma wait_fields:
  assumes "OptimizeCommand_wait now pk c start key req s = Some (res, s')"
  shows "batchQueue s' = batchQueue s" "batchSize s' = batchSize s" "nextChan s' = nextChan s"
    "batch s' = batch s" "flushes s' = flushes s" "chans s' = chans s"
    "executions s' = executions s" "cleaner s' = cleaner s"
  using assms
  by (auto simp: OptimizeCommand_wait_def Let_def recordRequest_fields split: if_splits)

lemma cleanCache_fields:
  assumes "step now ev s = Some s'" "ev \<in> range SweepLoad \<union> {SweepTest, SweepDelete}"
  shows "batchQueue s' = batchQueue s" "batchSize s' = batchSize s" "nextChan s' = nextChan s"
    "batch s' = batch s" "flushes s' = flushes s" "chans s' = chans s"
    "executions s' = executions s" "metrics s' = metrics s"
  using assms
  by (auto simp: step_def cleanCache_load_def cleanCache_test_def cleanCache_delete_def
      split: visit.splits option.splits)

lemma dispatch_fields:
  "batchSize (snd (OptimizeCommand_dispatch now c sid cmd s)) = batchSize s"
  "batch (snd (OptimizeCommand_dispatch now c sid cmd s)) = batch s"
  "flushes (snd (OptimizeCommand_dispatch now c sid cmd s)) = flushes s"
  "nextChan (snd (OptimizeCommand_dispatch now c sid cmd s)) = nextChan s + 1"
  "cache (snd (OptimizeCommand_dispatch now c sid cmd s)) = cache s"
  "metrics (snd (OptimizeCommand_dispatch now c sid cmd s)) = metrics s"
  "cleaner (snd (OptimizeCommand_dispatch now c sid cmd s)) = cleaner s"
  "Response (fst (OptimizeCommand_dispatch now c sid cmd s)) = nextChan s"
  by (simp_all add: OptimizeCommand_dispatch_def Let_def processSingleRequest_fields)

section \<open>What is sent and what is executed\<close>

lemma fold_chans:
  assumes "\<And>x s. chans (f x s) c = chans s c @ W x"
  shows "chans (fold f xs s) c = chans s c @ concat (map W xs)"
  by (induction xs arbitrary: s) (simp_all add: assms)

lemma fold_executions:
  assumes "\<And>x s. executions (f x s) = executions s @ E x"
  shows "executions (fold f xs s) = executions s @ concat (map E xs)"
  by (induction xs arbitrary: s) (simp_all add: assms)

lemma concat_map_if:
  "concat (map (\<lambda>x. if P x then [g x] else []) xs) = map g (filter P xs)"
  by (induction xs) simp_all

lemma chans_send: "chans (send c' r s) c = chans s c @ (if c' = c then [r] else [])"
  by (simp add: send_def)

lemma executions_send: "executions (send c' r s) = executions s"
  by (simp add: send_def)

lemma chans_fold_send:
  "chans (fold (\<lambda>req. send (Response req) (g req)) reqs s) c =
   chans s c @ map g (filter (\<lambda>req. Response req = c) reqs)"
proof -
  have "chans (fold (\<lambda>req. send (Response req) (g req)) reqs s) c =
        chans s c @ concat (map (\<lambda>req. if Response req = c then [g req] else []) reqs)"
    by (rule fold_chans) (simp add: chans_send)
  then show ?thesis by (simp only: concat_map_if)
qed

lemma executions_fold_send:
  "executions (fold (\<lambda>req. send (Response req) (g req)) reqs s) = executions s"
  using fold_executions [of "\<lambda>req. send (Response req) (g req)" "\<lambda>_. []" reqs s]
  by (simp add: executions_send)

lemma chans_processSingleRequest:
  "chans (processSingleRequest now req s) c =
   chans s c @ (if Response req = c then [singleResponse now req] else [])"
  by (simp add: processSingleRequest_def send_def singleResponse_def)

lemma executions_processSingleRequest:
  "executions (processSingleRequest now req s) = executions s @ [ExecSingle (Command req)]"
  by (simp add: processSingleRequest_def send_def)

lemma chans_fold_single:
  "chans (fold (processSingleRequest now) reqs s) c =
   chans s c @ map (singleResponse now) (filter (\<lambda>req. Response req = c) reqs)"
proof -
  have "chans (fold (processSingleRequest now) reqs s) c =
        chans s c @ concat (map (\<lambda>req. if Response req = c then [singleResponse now req] else []) reqs)"
    by (rule fold_chans) (simp add: chans_processSingleRequest)
  then show ?thesis by (simp only: concat_map_if)
qed

lemma executions_fold_single:
  "executions (fold (processSingleRequest now) reqs s) =
   executions s @ map (\<lambda>req. ExecSingle (Command req)) reqs"
proof -
  have "executions (fold (processSingleRequest now) reqs s) =
        executions s @ concat (map (\<lambda>req. [ExecSingle (Command req)]) reqs)"
    by (rule fold_executions) (simp add: executions_processSingleRequest)
  then show ?thesis by (simp add: concat_map_singleton)
qed

lemma chans_combineTarget:
  "chans (combineTarget now tr s) c =
   chans s c @ map (combinedResponse now (fst tr) (length (snd tr)))
                   (filter (\<lambda>req. Response req = c) (snd tr))"
  unfolding combineTarget_def Let_def combinedResponse_def [abs_def]
  by (simp add: chans_fold_send)

lemma executions_combineTarget:
  "executions (combineTarget now tr s) =
   executions s @ [ExecCombined (fst tr) (length (snd tr))]"
  unfolding combineTarget_def Let_def
  by (simp add: executions_fold_send)

lemma chans_processCommandGroup:
  "chans (processCommandGroup now ct reqs s) c = chans s c @ groupSends now c ct reqs"
proof (cases "ct = ''analyze''")
  case True
  have "chans (fold (combineTarget now) (groupBy (\<lambda>req. extractTarget (Command req)) reqs) s) c =
        chans s c @ concat (map (\<lambda>tr. map (combinedResponse now (fst tr) (length (snd tr)))
                               (filter (\<lambda>req. Response req = c) (snd tr)))
                       (groupBy (\<lambda>req. extractTarget (Command req)) reqs))"
    by (rule fold_chans) (rule chans_combineTarget)
  with True show ?thesis
    by (simp add: processCommandGroup_def combineAnalyzeRequests_def groupSends_def)
next
  case False
  then show ?thesis
    by (simp add: processCommandGroup_def parallelTestRequests_def groupSends_def chans_fold_single)
qed

lemma executions_processCommandGroup:
  "executions (processCommandGroup now ct reqs s) = executions s @ groupExecutions ct reqs"
proof (cases "ct = ''analyze''")
  case True
  have "executions (fold (combineTarget now) (groupBy (\<lambda>req. extractTarget (Command req)) reqs) s) =
        executions s @ concat (map (\<lambda>tr. [ExecCombined (fst tr) (length (snd tr))])
                       (groupBy (\<lambda>req. extractTarget (Command req)) reqs))"
    by (rule fold_executions) (rule executions_combineTarget)
  with True show ?thesis
    by (simp add: processCommandGroup_def combineAnalyzeRequests_def groupExecutions_def
        concat_map_singleton)
next
  case False
  then show ?thesis
    by (simp add: processCommandGroup_def parallelTestRequests_def groupExecutions_def
        executions_fold_single)
qed

lemma chans_processBatch:
  "chans (processBatch now b s) c =
   chans s c @ concat (map (\<lambda>g. groupSends now c (fst g) (snd g))
                           (groupBy (\<lambda>req. extractCommandType (Command req)) b))"
  unfolding processBatch_def Let_def
  by (rule fold_chans) (rule chans_processCommandGroup)

lemma executions_processBatch:
  "executions (processBatch now b s) =
   executions s @ concat (map (\<lambda>g. groupExecutions (fst g) (snd g))
                              (groupBy (\<lambda>req. extractCommandType (Command req)) b))"
  unfolding processBatch_def Let_def
  by (rule fold_executions) (rule executions_processCommandGroup)

section \<open>A batch whose requests have channels of their own\<close>

lemma filter_chan_unique:
  "distinct (map Response b) \<Longrightarrow> r \<in> set b \<Longrightarrow>
   filter (\<lambda>x. Response x = Response r \<and> P x) b = (if P r then [r] else [])"
proof (induction b)
  case Nil
  then show ?case by simp
next
  case (Cons a b)
  show ?case
  proof (cases "a = r")
    case True
    from Cons.prems(1) True have nr: "Response r \<notin> Response ` set b" by simp
    have "\<And>x. x \<in> set b \<Longrightarrow> Response x \<noteq> Response r"
      using nr by (metis imageI)
    then have "filter (\<lambda>x. Response x = Response r \<and> P x) b = []"
      by (simp add: filter_empty_conv)
    with True show ?thesis by simp
  next
    case False
    then have rb: "r \<in> set b" using Cons.prems(2) by simp
    then have "Response a \<noteq> Response r" using Cons.prems(1) by auto
    then show ?thesis using Cons.IH rb Cons.prems(1) by simp
  qed
qed

lemma concat_map_none: "(\<And>k. k \<in> set ks \<Longrightarrow> F k = []) \<Longrightarrow> concat (map F ks) = []"
  by (induction ks) simp_all

lemma concat_map_single_key:
  "distinct ks \<Longrightarrow> k0 \<in> set ks \<Longrightarrow> (\<And>k. k \<in> set ks \<Longrightarrow> k \<noteq> k0 \<Longrightarrow> F k = []) \<Longrightarrow>
   concat (map F ks) = F k0"
proof (induction ks)
  case Nil
  then show ?case by simp
next
  case (Cons k ks)
  show ?case
  proof (cases "k = k0")
    case True
    then have "concat (map F ks) = []"
      using Cons.prems by (intro concat_map_none) auto
    with True show ?thesis by simp
  next
    case False
    then have "F k = []" using Cons.prems(3) by simp
    moreover have "concat (map F ks) = F k0"
      using Cons.IH Cons.prems False by auto
    ultimately show ?thesis by simp
  qed
qed

lemma concat_groupBy:
  "concat (map (\<lambda>g. F (fst g) (snd g)) (groupBy key xs)) =
   concat (map (\<lambda>k. F k (filter (\<lambda>x. key x = k) xs)) (map fst (groupBy key xs)))"
proof -
  have "map (\<lambda>g. F (fst g) (snd g)) (groupBy key xs) =
        map (\<lambda>g. F (fst g) (filter (\<lambda>x. key x = fst g) xs)) (groupBy key xs)"
  proof (rule map_cong [OF refl])
    fix g assume "g \<in> set (groupBy key xs)"
    then have "(fst g, snd g) \<in> set (groupBy key xs)" by simp
    then have "snd g = filter (\<lambda>x. key x = fst g) xs" unfolding groupBy_member by simp
    then show "F (fst g) (snd g) = F (fst g) (filter (\<lambda>x. key x = fst g) xs)" by simp
  qed
  moreover have "map (\<lambda>k. F k (filter (\<lambda>x. key x = k) xs)) (map fst (groupBy key xs)) =
        map (\<lambda>g. F (fst g) (filter (\<lambda>x. key x = fst g) xs)) (groupBy key xs)"
    by (simp add: comp_def)
  ultimately show ?thesis by (simp only:)
qed

lemma keys_groupBy: "set (map fst (groupBy key xs)) = key ` set xs"
  using foldl_appendGroup_keys [of key "[]" xs] by (simp add: groupBy_def)

lemma groupSends_member:
  assumes d: "distinct (map Response b)" and r: "r \<in> set b"
  shows "groupSends now (Response r) k (filter (\<lambda>x. extractCommandType (Command x) = k) b) =
         (if extractCommandType (Command r) = k then [batchResponse now b r] else [])"
proof (cases "k = ''analyze''")
  case False
  have "filter (\<lambda>req. Response req = Response r) (filter (\<lambda>x. extractCommandType (Command x) = k) b) =
        filter (\<lambda>x. Response x = Response r \<and> extractCommandType (Command x) = k) b"
    by (simp add: conj_commute)
  also have "\<dots> = (if extractCommandType (Command r) = k then [r] else [])"
    by (rule filter_chan_unique [OF d r])
  finally show ?thesis using False by (auto simp: groupSends_def batchResponse_def)
next
  case True
  let ?reqs = "filter (\<lambda>x. extractCommandType (Command x) = k) b"
  let ?tgt = "\<lambda>req. extractTarget (Command req)"
  let ?F = "\<lambda>t reqs. map (combinedResponse now t (length reqs))
                         (filter (\<lambda>req. Response req = Response r) reqs)"
  let ?ts = "map fst (groupBy ?tgt ?reqs)"
  have sends: "groupSends now (Response r) k ?reqs =
               concat (map (\<lambda>t. ?F t (filter (\<lambda>x. ?tgt x = t) ?reqs)) ?ts)"
    using True concat_groupBy [of ?F ?tgt ?reqs] by (simp add: groupSends_def)
  have each: "filter (\<lambda>req. Response req = Response r) (filter (\<lambda>x. ?tgt x = t) ?reqs) =
              (if ?tgt r = t \<and> extractCommandType (Command r) = k then [r] else [])" for t
  proof -
    have "filter (\<lambda>req. Response req = Response r) (filter (\<lambda>x. ?tgt x = t) ?reqs) =
          filter (\<lambda>x. Response x = Response r \<and> (?tgt x = t \<and> extractCommandType (Command x) = k)) b"
      by (simp add: conj_commute conj_left_commute)
    then show ?thesis by (simp only: filter_chan_unique [OF d r])
  qed
  show ?thesis
  proof (cases "extractCommandType (Command r) = k")
    case False
    have "concat (map (\<lambda>t. ?F t (filter (\<lambda>x. ?tgt x = t) ?reqs)) ?ts) = []"
      by (rule concat_map_none) (simp only: each, simp add: False)
    with sends False show ?thesis by simp
  next
    case kr: True
    have "r \<in> set ?reqs" using r kr by simp
    then have in_ts: "?tgt r \<in> set ?ts" unfolding keys_groupBy by blast
    have "concat (map (\<lambda>t. ?F t (filter (\<lambda>x. ?tgt x = t) ?reqs)) ?ts) =
          ?F (?tgt r) (filter (\<lambda>x. ?tgt x = ?tgt r) ?reqs)"
      by (rule concat_map_single_key [OF distinct_groupBy in_ts]) (simp only: each, simp)
    also have "\<dots> = [combinedResponse now (?tgt r)
                        (length (filter (\<lambda>x. ?tgt x = ?tgt r) ?reqs)) r]"
      by (simp only: each, simp add: kr)
    also have "filter (\<lambda>x. ?tgt x = ?tgt r) ?reqs = sharing b (?tgt r)"
      using True by (simp add: sharing_def conj_commute)
    finally show ?thesis using sends kr True by (simp add: batchResponse_def)
  qed
qed

lemma chans_processBatch_member:
  assumes d: "distinct (map Response b)" and r: "r \<in> set b"
  shows "chans (processBatch now b s) (Response r) =
         chans s (Response r) @ [batchResponse now b r]"
proof -
  let ?key = "\<lambda>req. extractCommandType (Command req)"
  let ?ks = "map fst (groupBy ?key b)"
  have in_ks: "?key r \<in> set ?ks" unfolding keys_groupBy using r by blast
  have "concat (map (\<lambda>g. groupSends now (Response r) (fst g) (snd g)) (groupBy ?key b)) =
        concat (map (\<lambda>k. groupSends now (Response r) k (filter (\<lambda>x. ?key x = k) b)) ?ks)"
    by (rule concat_groupBy)
  also have "\<dots> = groupSends now (Response r) (?key r) (filter (\<lambda>x. ?key x = ?key r) b)"
    by (rule concat_map_single_key [OF distinct_groupBy in_ks])
       (simp add: groupSends_member [OF d r])
  also have "\<dots> = [batchResponse now b r]"
    by (simp add: groupSends_member [OF d r])
  finally show ?thesis by (simp add: chans_processBatch)
qed

lemma groupSends_other:
  assumes "c \<notin> Response ` set reqs"
  shows "groupSends now c k reqs = []"
proof -
  have none: "filter (\<lambda>req. Response req = c) (filter P reqs) = []" for P
    using assms by (auto simp: filter_empty_conv)
  have "filter (\<lambda>req. Response req = c) reqs = []"
    using assms by (auto simp: filter_empty_conv)
  moreover have
    "concat (map (\<lambda>tr. map (combinedResponse now (fst tr) (length (snd tr)))
                          (filter (\<lambda>req. Response req = c) (snd tr)))
                 (groupBy (\<lambda>req. extractTarget (Command req)) reqs)) = []"
    unfolding concat_groupBy
      [of "\<lambda>t rs. map (combinedResponse now t (length rs)) (filter (\<lambda>req. Response req = c) rs)"]
    by (rule concat_map_none) (simp only: none list.map)
  ultimately show ?thesis by (simp add: groupSends_def)
qed




section \<open>The order of the groups does not matter\<close>

text \<open>
  Groups (and the targets of a combined analysis) whose requests have different
  channels can be processed in either order: the channels end up the same.
\<close>

lemma processCommandGroup_commute:
  assumes "Response ` set g1 \<inter> Response ` set g2 = {}"
  shows "chans (processCommandGroup now k1 g1 (processCommandGroup now k2 g2 s)) =
         chans (processCommandGroup now k2 g2 (processCommandGroup now k1 g1 s))"
proof
  fix c
  have "groupSends now c k1 g1 = [] \<or> groupSends now c k2 g2 = []"
    using assms groupSends_other [of c g1 now k1] groupSends_other [of c g2 now k2] by blast
  then show "chans (processCommandGroup now k1 g1 (processCommandGroup now k2 g2 s)) c =
             chans (processCommandGroup now k2 g2 (processCommandGroup now k1 g1 s)) c"
    by (auto simp: chans_processCommandGroup)
qed

lemma combineTarget_commute:
  assumes "Response ` set (snd t1) \<inter> Response ` set (snd t2) = {}"
  shows "chans (combineTarget now t1 (combineTarget now t2 s)) =
         chans (combineTarget now t2 (combineTarget now t1 s))"
proof
  fix c
  have "filter (\<lambda>req. Response req = c) (snd t1) = [] \<or>
        filter (\<lambda>req. Response req = c) (snd t2) = []"
    using assms by (auto simp: filter_empty_conv)
  then show "chans (combineTarget now t1 (combineTarget now t2 s)) c =
             chans (combineTarget now t2 (combineTarget now t1 s)) c"
    by (auto simp: chans_combineTarget)
qed

section \<open>The fulfilment invariant\<close>













section \<open>The batch size invariant\<close>

lemma size_inv_cong:
  assumes "batchSize s' = batchSize s" "batch s' = batch s" "flushes s' = flushes s"
  shows "size_inv s' = size_inv s"
  by (simp add: size_inv_def assms)

lemma size_inv_step:
  assumes "size_inv s" "step now ev s = Some s'"
  shows "size_inv s'"
proof (cases ev)
  case (Call c sid cmd)
  show ?thesis
  proof (cases "OptimizeCommand_cached now now sid cmd s")
    case None
    with Call assms(2) have "s' = snd (OptimizeCommand_dispatch now c sid cmd s)"
      by (simp add: step_def)
    moreover have "size_inv (snd (OptimizeCommand_dispatch now c sid cmd s)) = size_inv s"
      by (rule size_inv_cong) (simp_all add: dispatch_fields)
    ultimately show ?thesis using assms(1) by simp
  next
    case (Some a)
    obtain resp s2 where a: "a = (resp, s2)" by (cases a)
    with Some Call assms(2) have "s' = s2" by (simp add: step_def)
    with Some a have "s' = recordCacheHit s" using cached_fields by blast
    moreover have "size_inv (recordCacheHit s) = size_inv s"
      by (rule size_inv_cong) (simp_all add: recordCacheHit_fields)
    ultimately show ?thesis using assms(1) by simp
  qed
next
  case (Return pk start req)
  with assms(2) obtain res where
    "OptimizeCommand_wait now pk (Context req) start (cacheKey (SessionID req) (Command req)) req s
       = Some (res, s')"
    by (auto simp: step_def)
  from wait_fields [OF this] have "size_inv s' = size_inv s"
    by (intro size_inv_cong)
  then show ?thesis using assms(1) by simp
next
  case Receive
  show ?thesis
  proof (cases "batchQueue s")
    case Nil
    with Receive assms(2) show ?thesis by (simp add: step_def)
  next
    case (Cons req rest)
    let ?s1 = "s\<lparr>batchQueue := rest, batch := batch s @ [req]\<rparr>"
    show ?thesis
    proof (cases "int (length (batch ?s1)) \<ge> batchSize ?s1")
      case True
      with Receive Cons assms(2) have s': "s' = flush now BySize ?s1"
        by (simp add: step_def Let_def)
      from True assms(1) have "int (length (batch s @ [req])) = batchSize s"
        by (simp add: size_inv_def)
      then show ?thesis using assms(1) unfolding s' size_inv_def flush_fields by auto
    next
      case False
      with Receive Cons assms(2) have s': "s' = ?s1"
        by (simp add: step_def Let_def)
      show ?thesis using False assms(1) unfolding s' size_inv_def by simp
    qed
  qed
next
  case Tick
  with assms(2) have "s' = flush now ByTimer s \<or> s' = s"
    by (auto simp: step_def split: if_splits)
  then show ?thesis using assms(1) by (auto simp: size_inv_def flush_fields)
next
  case (SweepLoad key)
  then have "size_inv s' = size_inv s"
    by (intro size_inv_cong cleanCache_fields [OF assms(2)]) simp_all
  then show ?thesis using assms(1) by simp
next
  case SweepTest
  then have "size_inv s' = size_inv s"
    by (intro size_inv_cong cleanCache_fields [OF assms(2)]) simp_all
  then show ?thesis using assms(1) by simp
next
  case SweepDelete
  then have "size_inv s' = size_inv s"
    by (intro size_inv_cong cleanCache_fields [OF assms(2)]) simp_all
  then show ?thesis using assms(1) by simp
qed

lemma size_inv_run:
  "size_inv s \<Longrightarrow> run evs s = Some s' \<Longrightarrow> size_inv s' \<and> batchSize s' = batchSize s"
proof (induction evs arbitrary: s)
  case Nil
  then show ?case by simp
next
  case (Cons e evs)
  obtain now ev where e: "e = (now, ev)" by (cases e)
  from Cons.prems(2) e obtain s1 where 1: "step now ev s = Some s1" and 2: "run evs s1 = Some s'"
    by (auto split: option.splits)
  have "batchSize s1 = batchSize s"
    using 1 by (cases ev)
      (auto simp: step_def Let_def flush_fields dispatch_fields recordCacheHit_fields
         cleanCache_load_def cleanCache_test_def cleanCache_delete_def
         dest: wait_fields cached_fields split: option.splits if_splits list.splits visit.splits)
  then show ?case using Cons.IH [OF size_inv_step [OF Cons.prems(1) 1] 2] by simp
qed

section \<open>Evaluating a run\<close>

lemmas run_eval = started_def submitAndCollect_def NewOptimizer_def NewWorkerPool_def step_def
  OptimizeCommand_cached_def OptimizeCommand_dispatch_def Let_def flush_def processBatch_def
  groupBy_def processCommandGroup_def combineAnalyzeRequests_def parallelTestRequests_def
  combineTarget_def processSingleRequest_def send_def extractCommandType_def extractTarget_def
  HasPrefix_def TrimPrefix_def cacheKey_def background_def combinedResult_def itoa.simps
  Since_def Sub_def Millisecond_def

section \<open>Every request is answered once\<close>



section \<open>The size of a flushed batch\<close>

text \<open>
  Claim C5. From a new optimizer (whose batch size is the default 10, the only value
  the code ever gives it), every batch flushed because the buffer reached the batch
  size has at most that many requests, and the buffer holds fewer between two steps.
\<close>

theorem batch_size_bound:
  assumes "NewOptimizer numCPU = Some s0" and "run evs s0 = Some s"
    and "(BySize, b) \<in> set (flushes s)"
  shows "int (length b) \<le> batchSize s \<and> batchSize s = 10 \<and> int (length (batch s)) < batchSize s"
proof -
  have 0: "size_inv s0" "batchSize s0 = 10"
    using assms(1) by (auto simp: NewOptimizer_def size_inv_def split: option.splits)
  from size_inv_run [OF 0(1) assms(2)] 0(2) assms(3) show ?thesis
    by (auto simp: size_inv_def)
qed

theorem batch_size_bound_witness:
  "\<exists>s0 s b. NewOptimizer 4 = Some s0 \<and>
     run (submitAndCollect [''/user:build 1'', ''/user:build 2'', ''/user:build 3'',
            ''/user:build 4'', ''/user:build 5'', ''/user:build 6'', ''/user:build 7'',
            ''/user:build 8'', ''/user:build 9'', ''/user:build 10'', ''/user:build 11'',
            ''/user:build 12'']) s0 = Some s \<and>
     (BySize, b) \<in> set (flushes s) \<and> length b = 10 \<and>
     int (length b) \<le> batchSize s \<and> batchSize s = 10 \<and> int (length (batch s)) < batchSize s"
proof -
  let ?evs = "submitAndCollect [''/user:build 1'', ''/user:build 2'', ''/user:build 3'',
            ''/user:build 4'', ''/user:build 5'', ''/user:build 6'', ''/user:build 7'',
            ''/user:build 8'', ''/user:build 9'', ''/user:build 10'', ''/user:build 11'',
            ''/user:build 12'']"
  obtain s0 where s0: "NewOptimizer 4 = Some s0"
    by (simp add: NewOptimizer_def NewWorkerPool_def)
  have "\<exists>s. started 4 ?evs = Some s \<and> (\<exists>b. (BySize, b) \<in> set (flushes s) \<and> length b = 10)"
    by (simp add: run_eval)
  then obtain s b where s: "run ?evs s0 = Some s" "(BySize, b) \<in> set (flushes s)" "length b = 10"
    using s0 by (auto simp: started_def)
  from batch_size_bound [OF s0 s(1) s(2)] s0 s show ?thesis by blast
qed

section \<open>The key of a group\<close>

text \<open>
  Claim C2, as stated: the type by which a batch is partitioned is the leading token of
  the command. It is not: \<open>extractCommandType\<close> gives \<open>unknown\<close> to every command
  whose first part does not start with \<open>/user:\<close>, so \<open>analyze src\<close>, whose leading
  token is \<open>analyze\<close>, goes to the group \<open>unknown\<close>.
\<close>

theorem leading_token_is_not_the_type:
  "extractCommandType ''analyze src'' = ''unknown'' \<and> leadingToken ''analyze src'' = ''analyze''"
  by (simp add: extractCommandType_def HasPrefix_def leadingToken_def isSpace_def)

text \<open>
  Claim C2, amended: the type of a command is the part before its first space with the
  prefix \<open>/user:\<close> taken off when that part starts with \<open>/user:\<close>, and \<open>unknown\<close>
  otherwise; the groups of a batch have a group of this type for each of its requests,
  and a request is in a group exactly when the group's key is the type of its command.
\<close>

theorem group_key_is_command_type:
  assumes "req \<in> set batch'"
  shows "(let part = takeWhile (\<lambda>c. c \<noteq> CHR '' '') (Command req);
              cmdType = (if take 6 part = ''/user:'' then drop 6 part else ''unknown'')
          in cmdType \<in> fst ` set (groupBy (\<lambda>req. extractCommandType (Command req)) batch') \<and>
             (\<forall>k reqs. (k, reqs) \<in> set (groupBy (\<lambda>req. extractCommandType (Command req)) batch')
                 \<longrightarrow> (req \<in> set reqs \<longleftrightarrow> k = cmdType)))"
proof -
  let ?key = "\<lambda>req. extractCommandType (Command req)"
  have 1: "?key req \<in> fst ` set (groupBy ?key batch')"
    using keys_groupBy [of ?key batch'] assms by auto
  have 2: "req \<in> set reqs \<longleftrightarrow> k = ?key req" if "(k, reqs) \<in> set (groupBy ?key batch')" for k reqs
    using that assms unfolding groupBy_member by auto
  show ?thesis
    using 1 2 unfolding extractCommandType_eq [symmetric] Let_def
    by (simp add: extractCommandType_eq [unfolded Let_def, symmetric])
qed

theorem group_key_is_command_type_witness:
  "request ''/user:analyze src'' 0 \<in> set [request ''/user:analyze src'' 0, request ''build x'' 1] \<and>
   ''analyze'' \<in> fst ` set (groupBy (\<lambda>req. extractCommandType (Command req))
                              [request ''/user:analyze src'' 0, request ''build x'' 1]) \<and>
   (''unknown'', [request ''build x'' 1]) \<in> set (groupBy (\<lambda>req. extractCommandType (Command req))
                              [request ''/user:analyze src'' 0, request ''build x'' 1]) \<and>
   request ''/user:analyze src'' 0 \<notin> set [request ''build x'' 1]"
  using group_key_is_command_type
    [of "request ''/user:analyze src'' 0" "[request ''/user:analyze src'' 0, request ''build x'' 1]"]
  by (simp add: request_def groupBy_def extractCommandType_def HasPrefix_def TrimPrefix_def)

section \<open>Combined analysis\<close>

lemma map_groupBy:
  "map (\<lambda>g. F (fst g) (snd g)) (groupBy key xs) =
   map (\<lambda>k. F k (filter (\<lambda>x. key x = k) xs)) (map fst (groupBy key xs))"
proof -
  have "map (\<lambda>g. F (fst g) (snd g)) (groupBy key xs) =
        map (\<lambda>g. F (fst g) (filter (\<lambda>x. key x = fst g) xs)) (groupBy key xs)"
  proof (rule map_cong [OF refl])
    fix g assume "g \<in> set (groupBy key xs)"
    then have "(fst g, snd g) \<in> set (groupBy key xs)" by simp
    then have "snd g = filter (\<lambda>x. key x = fst g) xs" unfolding groupBy_member by simp
    then show "F (fst g) (snd g) = F (fst g) (filter (\<lambda>x. key x = fst g) xs)" by simp
  qed
  moreover have "map (\<lambda>k. F k (filter (\<lambda>x. key x = k) xs)) (map fst (groupBy key xs)) =
        map (\<lambda>g. F (fst g) (filter (\<lambda>x. key x = fst g) xs)) (groupBy key xs)"
    by (simp add: comp_def)
  ultimately show ?thesis by (simp only:)
qed

lemma filter_eq_distinct:
  "distinct xs \<Longrightarrow> x \<in> set xs \<Longrightarrow> filter (\<lambda>y. y = x) xs = [x]"
proof (induction xs)
  case Nil
  then show ?case by simp
next
  case (Cons a xs)
  show ?case
  proof (cases "a = x")
    case True
    then have "x \<notin> set xs" using Cons.prems(1) by simp
    then have "filter (\<lambda>y. y = x) xs = []" by (auto simp: filter_empty_conv)
    with True show ?thesis by simp
  next
    case False
    then show ?thesis using Cons by simp
  qed
qed

lemma executedFor_group:
  assumes r: "req \<in> set (sharing b target)"
  shows "filter (executedFor req)
           (groupExecutions k (filter (\<lambda>x. extractCommandType (Command x) = k) b)) =
         (if k = ''analyze'' then [ExecCombined target (length (sharing b target))] else [])"
proof -
  let ?tgt = "\<lambda>req. extractTarget (Command req)"
  from r have rb: "req \<in> set b" and ra: "extractCommandType (Command req) = ''analyze''"
    and rt: "?tgt req = target" by (auto simp: sharing_def)
  show ?thesis
  proof (cases "k = ''analyze''")
    case False
    have "\<not> executedFor req (ExecSingle (Command x))"
      if "x \<in> set (filter (\<lambda>x. extractCommandType (Command x) = k) b)" for x
      using that False ra by (auto simp: executedFor_def)
    then have "filter (executedFor req)
                 (map (\<lambda>x. ExecSingle (Command x))
                    (filter (\<lambda>x. extractCommandType (Command x) = k) b)) = []"
      by (simp add: filter_empty_conv)
    with False show ?thesis by (simp add: groupExecutions_def)
  next
    case True
    let ?reqs = "filter (\<lambda>x. extractCommandType (Command x) = k) b"
    let ?ts = "map fst (groupBy ?tgt ?reqs)"
    have "req \<in> set ?reqs" using rb ra True by simp
    then have in_ts: "target \<in> set ?ts" unfolding keys_groupBy using rt by blast
    have ge: "groupExecutions k ?reqs =
              map (\<lambda>t. ExecCombined t (length (filter (\<lambda>x. ?tgt x = t) ?reqs))) ?ts"
      using True map_groupBy [of "\<lambda>t rs. ExecCombined t (length rs)" ?tgt ?reqs]
      by (simp add: groupExecutions_def)
    have ef: "executedFor req (ExecCombined t n) \<longleftrightarrow> t = target" for t n
      using ra rt by (auto simp: executedFor_def)
    have "filter (executedFor req) (groupExecutions k ?reqs) =
          map (\<lambda>t. ExecCombined t (length (filter (\<lambda>x. ?tgt x = t) ?reqs)))
              (filter (\<lambda>t. t = target) ?ts)"
      unfolding ge filter_map by (simp add: comp_def ef)
    also have "filter (\<lambda>t. t = target) ?ts = [target]"
      by (rule filter_eq_distinct [OF distinct_groupBy in_ts])
    finally have "filter (executedFor req) (groupExecutions k ?reqs) =
          [ExecCombined target (length (filter (\<lambda>x. ?tgt x = target) ?reqs))]"
      by simp
    moreover have "filter (\<lambda>x. ?tgt x = target) ?reqs = sharing b target"
      using True by (simp add: sharing_def conj_commute)
    ultimately show ?thesis using True by simp
  qed
qed

lemma executedFor_batch:
  assumes r: "req \<in> set (sharing b target)"
  shows "filter (executedFor req)
           (concat (map (\<lambda>g. groupExecutions (fst g) (snd g))
                        (groupBy (\<lambda>req. extractCommandType (Command req)) b))) =
         [ExecCombined target (length (sharing b target))]"
proof -
  let ?key = "\<lambda>req. extractCommandType (Command req)"
  let ?ks = "map fst (groupBy ?key b)"
  let ?F = "\<lambda>k reqs. filter (executedFor req) (groupExecutions k reqs)"
  from r have rb: "req \<in> set b" and ra: "?key req = ''analyze''" by (auto simp: sharing_def)
  have in_ks: "''analyze'' \<in> set ?ks" unfolding keys_groupBy using rb ra by force
  have "filter (executedFor req)
           (concat (map (\<lambda>g. groupExecutions (fst g) (snd g)) (groupBy ?key b))) =
        concat (map (\<lambda>g. ?F (fst g) (snd g)) (groupBy ?key b))"
    by (simp add: filter_concat comp_def)
  also have "\<dots> = concat (map (\<lambda>k. ?F k (filter (\<lambda>x. ?key x = k) b)) ?ks)"
    by (rule concat_groupBy)
  also have "\<dots> = ?F ''analyze'' (filter (\<lambda>x. ?key x = ''analyze'') b)"
    by (rule concat_map_single_key [OF distinct_groupBy in_ks])
       (simp only: executedFor_group [OF r], simp)
  also have "\<dots> = [ExecCombined target (length (sharing b target))]"
    by (simp only: executedFor_group [OF r], simp)
  finally show ?thesis .
qed

text \<open>
  Claim C1, as stated, with its example: five concurrent requests \<open>analyze src\<close> of one
  session give one execution and five responses with \<open>BatchSize\<close> 5. They do not: the
  type of \<open>analyze src\<close> is \<open>unknown\<close>, so the batch goes through the default
  strategy, with five executions and \<open>BatchSize\<close> 1 in every response.
\<close>

theorem analyze_src_is_not_combined:
  "map_option executions (started 4 (submitAndCollect (replicate 5 ''analyze src''))) =
     Some [ExecSingle ''analyze src'', ExecSingle ''analyze src'', ExecSingle ''analyze src'',
           ExecSingle ''analyze src'', ExecSingle ''analyze src''] \<and>
   map_option (sizesReported [0, 1, 2, 3, 4])
     (started 4 (submitAndCollect (replicate 5 ''analyze src''))) =
     Some [[1], [1], [1], [1], [1]]"
  by code_simp

text \<open>
  The same five callers asking \<open>/user:analyze src\<close> do share one execution.
\<close>

theorem user_analyze_src_is_combined:
  "map_option executions (started 4 (submitAndCollect (replicate 5 ''/user:analyze src''))) =
     Some [ExecCombined ''src'' 5] \<and>
   map_option (sizesReported [0, 1, 2, 3, 4])
     (started 4 (submitAndCollect (replicate 5 ''/user:analyze src''))) =
     Some [[5], [5], [5], [5], [5]]"
  by code_simp

text \<open>
  Twelve of them do not fit one batch: the first ten are flushed together when the
  buffer reaches the batch size, the other two by the ticker, and the responses report
  10 and 2.
\<close>

theorem twelve_analyze_are_split:
  "map_option (sizesReported [0, 1, 2, 3, 4, 5, 6, 7, 8, 9, 10, 11])
     (started 4 (submitAndCollect (replicate 12 ''/user:analyze src''))) =
     Some [[10], [10], [10], [10], [10], [10], [10], [10], [10], [10], [2], [2]] \<and>
   map_option executions (started 4 (submitAndCollect (replicate 12 ''/user:analyze src''))) =
     Some [ExecCombined ''src'' 10, ExecCombined ''src'' 2]"
  by code_simp

text \<open>
  Claim C1, amended: in a flushed batch (each request with a channel of its own), take
  the requests of type \<open>analyze\<close>, that is, whose command starts with
  \<open>/user:analyze\<close> followed by a space or the end, that have one target; say there are
  \<open>N\<close>. Processing the batch runs exactly one execution for each of them, the one
  combined analysis of that target, and sends each of them one response, with the same
  result for all and \<open>BatchSize\<close> equal to \<open>N\<close>.
\<close>

theorem combine_sharing:
  assumes "distinct (map Response batch')" and "req \<in> set (sharing batch' target)"
  shows "filter (executedFor req)
           (drop (length (executions s)) (executions (processBatch now batch' s))) =
           [ExecCombined target (length (sharing batch' target))] \<and>
         chans (processBatch now batch' s) (Response req) =
           chans s (Response req) @
           [\<lparr>Result = combinedResult target (length (sharing batch' target)), Error = None,
             CacheHit = False, BatchSize = int (length (sharing batch' target)),
             Duration = Since now (Timestamp req)\<rparr>]"
proof -
  from assms(2) have rb: "req \<in> set batch'"
    and ra: "extractCommandType (Command req) = ''analyze''"
    and rt: "extractTarget (Command req) = target" by (auto simp: sharing_def)
  have "chans (processBatch now batch' s) (Response req) =
        chans s (Response req) @ [batchResponse now batch' req]"
    by (rule chans_processBatch_member [OF assms(1) rb])
  moreover have "batchResponse now batch' req =
     \<lparr>Result = combinedResult target (length (sharing batch' target)), Error = None,
       CacheHit = False, BatchSize = int (length (sharing batch' target)),
       Duration = Since now (Timestamp req)\<rparr>"
    using ra rt by (simp add: batchResponse_def combinedResponse_def)
  moreover have "filter (executedFor req)
           (drop (length (executions s)) (executions (processBatch now batch' s))) =
           [ExecCombined target (length (sharing batch' target))]"
    by (simp add: executions_processBatch executedFor_batch [OF assms(2)])
  ultimately show ?thesis by simp
qed

theorem combine_sharing_witness:
  "\<exists>s0. NewOptimizer 4 = Some s0 \<and>
     distinct (map Response (map (request ''/user:analyze src'') [0, 1, 2, 3, 4])) \<and>
     request ''/user:analyze src'' 2 \<in>
       set (sharing (map (request ''/user:analyze src'') [0, 1, 2, 3, 4]) ''src'') \<and>
     filter (executedFor (request ''/user:analyze src'' 2))
       (drop (length (executions s0))
          (executions (processBatch 7 (map (request ''/user:analyze src'') [0, 1, 2, 3, 4]) s0))) =
       [ExecCombined ''src'' 5] \<and>
     chans (processBatch 7 (map (request ''/user:analyze src'') [0, 1, 2, 3, 4]) s0) 2 =
       [\<lparr>Result = ''Combined analysis of src for 5 requests'', Error = None, CacheHit = False,
         BatchSize = 5, Duration = 7\<rparr>]"
proof -
  let ?B = "map (request ''/user:analyze src'') [0, 1, 2, 3, 4]"
  let ?r = "request ''/user:analyze src'' 2"
  have h1: "distinct (map Response ?B)" by (simp add: request_def)
  have ty: "extractCommandType ''/user:analyze src'' = ''analyze''"
    "extractTarget ''/user:analyze src'' = ''src''"
    by (simp_all add: extractCommandType_def extractTarget_def HasPrefix_def TrimPrefix_def)
  have sh: "sharing ?B ''src'' = ?B" by (simp add: sharing_def request_def ty)
  have h2: "?r \<in> set (sharing ?B ''src'')" unfolding sh by simp
  obtain s0 where s0: "NewOptimizer 4 = Some s0" "chans s0 2 = []" "executions s0 = []"
    by (simp add: NewOptimizer_def NewWorkerPool_def)
  have res: "combinedResult ''src'' 5 = ''Combined analysis of src for 5 requests''"
    by (simp add: combinedResult_def itoa.simps)
  have tm: "Since 7 (Timestamp ?r) = 7" by (simp add: Since_def Sub_def request_def)
  have rr: "Response ?r = 2" by (simp add: request_def)
  have n: "length (sharing ?B ''src'') = 5" unfolding sh by simp
  have r: "chans s0 (Response ?r) = []" unfolding rr by (rule s0(2))
  note cs = combine_sharing [OF h1 h2, of s0 7, unfolded n res tm r rr append_Nil]
  show ?thesis
  proof (rule exI [of _ s0], intro conjI)
    show "NewOptimizer 4 = Some s0" by (rule s0(1))
    show "distinct (map Response ?B)" by (rule h1)
    show "?r \<in> set (sharing ?B ''src'')" by (rule h2)
    show "filter (executedFor ?r)
            (drop (length (executions s0)) (executions (processBatch 7 ?B s0))) =
          [ExecCombined ''src'' 5]"
      by (rule cs [THEN conjunct1])
    show "chans (processBatch 7 ?B s0) 2 =
          [\<lparr>Result = ''Combined analysis of src for 5 requests'', Error = None,
            CacheHit = False, BatchSize = 5, Duration = 7\<rparr>]"
      using cs [THEN conjunct2] s0(2) by simp
  qed
qed

section \<open>Cache freshness\<close>

lemma step_keeps_entry:
  assumes "step t ev s = Some s'" "\<not> storesTo key ev"
    "ev \<notin> range SweepLoad \<union> {SweepTest, SweepDelete}"
  shows "cache s' key = cache s key" "cleaner s' = cleaner s"
proof -
  have "cache s' key = cache s key \<and> cleaner s' = cleaner s"
  proof (cases ev)
    case (Call c sid cmd)
    show ?thesis
    proof (cases "OptimizeCommand_cached t t sid cmd s")
      case None
      with Call assms(1) have "s' = snd (OptimizeCommand_dispatch t c sid cmd s)"
        by (simp add: step_def)
      then show ?thesis by (simp add: dispatch_fields)
    next
      case (Some a)
      obtain resp s2 where a: "a = (resp, s2)" by (cases a)
      with Some Call assms(1) have "s' = s2" by (simp add: step_def)
      with Some a have "s' = recordCacheHit s" using cached_fields by blast
      then show ?thesis by (simp add: recordCacheHit_fields)
    qed
  next
    case (Return pk start req)
    with assms(2) have ne: "cacheKey (SessionID req) (Command req) \<noteq> key"
      by (simp add: storesTo_def)
    from Return assms(1) show ?thesis
      using ne
      by (auto simp: step_def OptimizeCommand_wait_def Let_def recordRequest_fields
          split: if_splits)
  next
    case Receive
    with assms(1) show ?thesis
      by (auto simp: step_def Let_def flush_fields split: list.splits if_splits)
  next
    case Tick
    with assms(1) show ?thesis
      by (auto simp: step_def flush_fields split: if_splits)
  next
    case (SweepLoad k)
    with assms(3) show ?thesis by simp
  next
    case SweepTest
    with assms(3) show ?thesis by simp
  next
    case SweepDelete
    with assms(3) show ?thesis by simp
  qed
  then show "cache s' key = cache s key" "cleaner s' = cleaner s" by simp_all
qed

text \<open>
  An entry that is not expired stays under its key as long as nothing is stored there
  and the cleaner, if it is visiting the key, was handed this very entry.
\<close>

lemma fresh_step:
  assumes "cache s key = Some e"
    and "\<not> visiting (cleaner s) key \<or> cleaner s = Loaded key e"
    and "step t ev s = Some s'" and "\<not> storesTo key ev" and "\<not> IsExpired t e"
  shows "cache s' key = Some e \<and> (\<not> visiting (cleaner s') key \<or> cleaner s' = Loaded key e)"
proof (cases "ev \<in> range SweepLoad \<union> {SweepTest, SweepDelete}")
  case False
  from step_keeps_entry [OF assms(3,4) False] assms(1,2) show ?thesis by simp
next
  case True
  then consider k where "ev = SweepLoad k" | "ev = SweepTest" | "ev = SweepDelete" by auto
  then show ?thesis
  proof cases
    case 1
    with assms(3) have "cleanCache_load k s = Some s'" by (simp add: step_def)
    with assms(1,2) show ?thesis
      by (auto simp: cleanCache_load_def visiting_def split: visit.splits option.splits)
  next
    case 2
    with assms(3) have "cleanCache_test t s = Some s'" by (simp add: step_def)
    with assms(1,2,5) show ?thesis
      by (auto simp: cleanCache_test_def visiting_def split: visit.splits if_splits)
  next
    case 3
    with assms(3) have "cleanCache_delete s = Some s'" by (simp add: step_def)
    with assms(1,2) show ?thesis
      by (auto simp: cleanCache_delete_def visiting_def split: visit.splits)
  qed
qed

lemma fresh_run:
  "cache s key = Some e \<Longrightarrow> \<not> visiting (cleaner s) key \<or> cleaner s = Loaded key e \<Longrightarrow>
   run evs s = Some s' \<Longrightarrow>
   \<forall>x \<in> set evs. \<not> storesTo key (snd x) \<and> \<not> IsExpired (fst x) e \<Longrightarrow>
   cache s' key = Some e"
proof (induction evs arbitrary: s)
  case Nil
  then show ?case by simp
next
  case (Cons x evs)
  obtain t ev where x: "x = (t, ev)" by (cases x)
  from Cons.prems(3) x obtain s1 where 1: "step t ev s = Some s1" and 2: "run evs s1 = Some s'"
    by (auto split: option.splits)
  have ok: "\<not> storesTo key ev" "\<not> IsExpired t e" using Cons.prems(4) x by simp_all
  have rest: "\<forall>x \<in> set evs. \<not> storesTo key (snd x) \<and> \<not> IsExpired (fst x) e"
    using Cons.prems(4) by simp
  from fresh_step [OF Cons.prems(1,2) 1 ok]
  have "cache s1 key = Some e" "\<not> visiting (cleaner s1) key \<or> cleaner s1 = Loaded key e"
    by simp_all
  then show ?case using 2 rest by (rule Cons.IH)
qed

text \<open>Without a store under the key, the entry found there later is the same one or none.\<close>

lemma same_or_none_step:
  assumes "cache s key = Some e \<or> cache s key = None"
    and "step t ev s = Some s'" and "\<not> storesTo key ev"
  shows "cache s' key = Some e \<or> cache s' key = None"
proof (cases "ev \<in> range SweepLoad \<union> {SweepTest, SweepDelete}")
  case False
  from step_keeps_entry(1) [OF assms(2,3) False] assms(1) show ?thesis by simp
next
  case True
  with assms(1,2) show ?thesis
    by (auto simp: step_def cleanCache_load_def cleanCache_test_def cleanCache_delete_def
        split: visit.splits option.splits if_splits)
qed

lemma same_or_none_run:
  "cache s key = Some e \<or> cache s key = None \<Longrightarrow> run evs s = Some s' \<Longrightarrow>
   \<forall>x \<in> set evs. \<not> storesTo key (snd x) \<Longrightarrow>
   cache s' key = Some e \<or> cache s' key = None"
proof (induction evs arbitrary: s)
  case Nil
  then show ?case by simp
next
  case (Cons x evs)
  obtain t ev where x: "x = (t, ev)" by (cases x)
  from Cons.prems(2) x obtain s1 where 1: "step t ev s = Some s1" and 2: "run evs s1 = Some s'"
    by (auto split: option.splits)
  have ok: "\<not> storesTo key ev" using Cons.prems(3) x by simp
  have rest: "\<forall>x \<in> set evs. \<not> storesTo key (snd x)" using Cons.prems(3) by simp
  from same_or_none_step [OF Cons.prems(1) 1 ok] show ?case using 2 rest by (rule Cons.IH)
qed

lemma wait_store:
  assumes "OptimizeCommand_wait t0 pk c start key req s = Some ((Some resp, None), s1)"
    "Error resp = None" "\<not> CacheHit resp"
  shows "cache s1 key = Some \<lparr>Data = Result resp, entry_Timestamp = t0\<rparr>"
  using assms
  by (auto simp: OptimizeCommand_wait_def Let_def recordRequest_fields split: if_splits)

text \<open>
  Claim C3: a lookup within 15 minutes of the last successful store for its key
  returns the stored value. The code breaks this when the store falls into a visit of
  the cache cleaner to the same key. The callback of \<open>cleanCache\<close> tests the value that
  \<open>Range\<close> read and then calls \<open>Delete(key)\<close>, which removes whatever is under the key
  by then, although the function is there to clean expired entries and tests
  \<open>IsExpired\<close> for that purpose. In the run \<open>storeInVisit\<close> the second caller stores its
  result at 1200.000000001 s, after \<open>Range\<close> has read the expired entry of the first;
  the callback then finds that old entry expired and deletes the new one
  (\<open>visitCompleted\<close>), and the lookup 3 ns after the store finds nothing and goes on
  to dispatch a request. In the same run without the cleaner the lookup is a hit.
\<close>

theorem sweep_deletes_fresh_entry:
  "storedAfter storeInVisit (cacheKey ''s1'' ''/user:build A'') =
     Some (Some \<lparr>Data = ''Processed: /user:build A'', entry_Timestamp = 1200000000001\<rparr>) \<and>
   storedAfter visitCompleted (cacheKey ''s1'' ''/user:build A'') = Some None \<and>
   lookupAfter visitCompleted 1200000000004 ''s1'' ''/user:build A'' = Some None \<and>
   lookupAfter storeAlone 1200000000004 ''s1'' ''/user:build A'' =
     Some (Some \<lparr>Result = ''Processed: /user:build A'', Error = None, CacheHit = True,
                  BatchSize = 0, Duration = 0\<rparr>)"
  by code_simp

text \<open>
  Apart from that the code keeps to the claim. A caller returns at \<open>t0\<close> with a
  response that has no error and is not a cache hit, which stores the result under the
  key, at a moment when the cleaner is not in the middle of a visit to this key; then
  come any steps of the callers, the collector and the cleaner, none later than \<open>t1\<close>,
  that store nothing under this key. A lookup of the key at \<open>t1\<close> within 15 minutes of
  \<open>t0\<close> (900000000000 nanoseconds) returns the stored result with \<open>CacheHit\<close> set and
  counts one more cache hit. A lookup later than that does not return it, visit or no
  visit, and control goes on to the dispatch of a request.
\<close>

theorem freshness_outside_a_visit:
  assumes store: "OptimizeCommand_wait t0 pk c start (cacheKey sessionID command) req s =
                    Some ((Some resp, None), s1)"
    and ok: "Error resp = None" "\<not> CacheHit resp"
    and later: "run evs s1 = Some s2"
    and evs: "\<forall>(t, ev) \<in> set evs. t \<le> t1 \<and> \<not> storesTo (cacheKey sessionID command) ev"
  shows "(\<not> visiting (cleaner s) (cacheKey sessionID command) \<and> t1 - t0 \<le> 900000000000 \<longrightarrow>
            OptimizeCommand_cached start1 t1 sessionID command s2 =
              Some (\<lparr>Result = Result resp, Error = None, CacheHit = True, BatchSize = 0,
                     Duration = Since t1 start1\<rparr>, recordCacheHit s2) \<and>
            cacheHits (metrics (recordCacheHit s2)) = cacheHits (metrics s2) + 1) \<and>
         (900000000000 < t1 - t0 \<longrightarrow>
            OptimizeCommand_cached start1 t1 sessionID command s2 = None)"
proof (intro conjI impI)
  let ?key = "cacheKey sessionID command"
  let ?e = "\<lparr>Data = Result resp, entry_Timestamp = t0\<rparr>"
  have c1: "cache s1 ?key = Some ?e" by (rule wait_store [OF store ok])
  have cl: "cleaner s1 = cleaner s" by (rule wait_fields(8) [OF store])
  have nst: "\<not> storesTo ?key ev" "t \<le> t1" if "(t, ev) \<in> set evs" for t ev
    using evs that by auto
  {
    assume "\<not> visiting (cleaner s) ?key \<and> t1 - t0 \<le> 900000000000"
    then have quiet: "\<not> visiting (cleaner s1) ?key \<or> cleaner s1 = Loaded ?key ?e"
      and fresh: "t1 - t0 \<le> 900000000000" by (simp_all add: cl)
    have "cache s2 ?key = Some ?e"
    proof (rule fresh_run [OF c1 quiet later], rule ballI)
      fix x assume "x \<in> set evs"
      then have "\<not> storesTo ?key (snd x)" "fst x \<le> t1" using nst [of "fst x" "snd x"] by auto
      with fresh show "\<not> storesTo ?key (snd x) \<and> \<not> IsExpired (fst x) ?e"
        by (simp add: IsExpired_iff)
    qed
    with fresh show "OptimizeCommand_cached start1 t1 sessionID command s2 =
              Some (\<lparr>Result = Result resp, Error = None, CacheHit = True, BatchSize = 0,
                     Duration = Since t1 start1\<rparr>, recordCacheHit s2)"
      by (simp add: OptimizeCommand_cached_def IsExpired_iff)
    show "cacheHits (metrics (recordCacheHit s2)) = cacheHits (metrics s2) + 1"
      by (simp add: recordCacheHit_def)
  }
  {
    assume stale: "900000000000 < t1 - t0"
    have "cache s2 ?key = Some ?e \<or> cache s2 ?key = None"
      by (rule same_or_none_run [OF _ later]) (use c1 evs in auto)
    with stale show "OptimizeCommand_cached start1 t1 sessionID command s2 = None"
      by (auto simp: OptimizeCommand_cached_def IsExpired_iff)
  }
qed

theorem freshness_outside_a_visit_witness:
  "\<exists>s s1 s2 resp.
     started 4 (submitAndCollect [''/user:build A'']) = Some s \<and>
     \<not> visiting (cleaner s) (cacheKey ''s1'' ''/user:build A'') \<and>
     OptimizeCommand_wait 100000001 PickResponse background 0 (cacheKey ''s1'' ''/user:build A'')
       (request ''/user:build A'' 0) s = Some ((Some resp, None), s1) \<and>
     Error resp = None \<and> \<not> CacheHit resp \<and> Result resp = ''Processed: /user:build A'' \<and>
     run [(100000002, SweepLoad (cacheKey ''s1'' ''/user:build A'')), (100000003, SweepTest)] s1 =
       Some s2 \<and>
     OptimizeCommand_cached 900100000001 900100000001 ''s1'' ''/user:build A'' s2 =
       Some (\<lparr>Result = ''Processed: /user:build A'', Error = None, CacheHit = True,
              BatchSize = 0, Duration = 0\<rparr>, recordCacheHit s2) \<and>
     cacheHits (metrics (recordCacheHit s2)) = cacheHits (metrics s2) + 1 \<and>
     OptimizeCommand_cached 900100000002 900100000002 ''s1'' ''/user:build A'' s2 = None"
proof -
  let ?R = "\<lparr>Result = ''Processed: /user:build A'', Error = None, CacheHit = False,
             BatchSize = 1, Duration = 100000000\<rparr>"
  let ?key = "cacheKey ''s1'' ''/user:build A''"
  let ?evs = "[(100000002 :: time, SweepLoad ?key), (100000003, SweepTest)]"
  have "\<exists>s. started 4 (submitAndCollect [''/user:build A'']) = Some s \<and> chans s 0 = [?R] \<and>
          cleaner s = Idle"
    by (simp add: run_eval)
  then obtain s where s: "started 4 (submitAndCollect [''/user:build A'']) = Some s"
    "chans s 0 = [?R]" "cleaner s = Idle" by blast
  have q: "\<not> visiting (cleaner s) ?key" by (simp add: s(3) visiting_def)
  have "\<exists>s1. OptimizeCommand_wait 100000001 PickResponse background 0 ?key
               (request ''/user:build A'' 0) s = Some ((Some ?R, None), s1)"
    using s(2) by (simp add: OptimizeCommand_wait_def request_def Let_def)
  then obtain s1 where w: "OptimizeCommand_wait 100000001 PickResponse background 0 ?key
               (request ''/user:build A'' 0) s = Some ((Some ?R, None), s1)" by blast
  have ok: "Error ?R = None" "\<not> CacheHit ?R" by simp_all
  have c1: "cache s1 ?key = Some \<lparr>Data = Result ?R, entry_Timestamp = 100000001\<rparr>"
    by (rule wait_store [OF w ok])
  have cl: "cleaner s1 = Idle" using wait_fields(8) [OF w] s(3) by simp
  have "\<exists>s2. run ?evs s1 = Some s2"
    using c1 cl by (simp add: step_def cleanCache_load_def cleanCache_test_def)
  then obtain s2 where r: "run ?evs s1 = Some s2" by blast
  have e1: "\<forall>(t, ev) \<in> set ?evs. t \<le> 900100000001 \<and> \<not> storesTo ?key ev"
    and e2: "\<forall>(t, ev) \<in> set ?evs. t \<le> 900100000002 \<and> \<not> storesTo ?key ev"
    by (simp_all add: storesTo_def)
  have d: "Since 900100000001 900100000001 = 0" by (simp add: Since_def Sub_def)
  from freshness_outside_a_visit [OF w ok r e1, of 900100000001]
       freshness_outside_a_visit [OF w ok r e2, of 900100000002] s(1) q w r d
  show ?thesis by auto
qed

section \<open>Cancellation\<close>

text \<open>
  Claim C7, as stated: a cancellation that fires before the slot is written makes
  \<open>OptimizeCommand\<close> return the context's error. Not always: the wait of lines 166 to
  181 is the only place that looks at the context, and when the slot has been written
  by the time the wait is decided, both cases of the \<open>select\<close> are ready and Go
  picks either. With \<open>batchQueue\<close> full, a caller whose context was cancelled at 5,
  before the call at 10, writes the slot itself after \<open>batchDelay\<close> and can then
  return the response with no error.
\<close>

theorem cancelled_yet_answered:
  "map_option fst
     (Option.bind (started 4 fullQueue)
        (OptimizeCommand \<lparr>t_start = 10, t_call = 10, between = [], t_wake = 100000010,
                           choice = PickResponse\<rparr> (cancelled 5) ''s1'' ''/user:build A'')) =
   Some (Some \<lparr>Result = ''Processed: /user:build A'', Error = None, CacheHit = False,
                BatchSize = 1, Duration = 100000000\<rparr>, None)"
  by code_simp

text \<open>The same call returns the context's error when the \<open>select\<close> picks the other case.\<close>

theorem cancelled_and_refused:
  "map_option fst
     (Option.bind (started 4 fullQueue)
        (OptimizeCommand \<lparr>t_start = 10, t_call = 10, between = [], t_wake = 100000010,
                           choice = PickDone\<rparr> (cancelled 5) ''s1'' ''/user:build A'')) =
   Some (None, Some Canceled)"
  by code_simp

text \<open>
  Claim C7, amended: when the call misses the cache and, at the moment its wait is
  decided, the context is done and nothing has been sent on the request's channel, then
  \<open>OptimizeCommand\<close> returns no response and the context's error, whatever the
  \<open>select\<close> would pick; the state is the one the other goroutines left, so nothing
  is stored in the cache, no request is recorded and nothing is dispatched again.
\<close>

theorem cancellation_before_fulfilment:
  assumes "OptimizeCommand_cached (t_start sched) (t_call sched) sessionID command s = None"
    and "OptimizeCommand_dispatch (t_call sched) c sessionID command s = (req, s1)"
    and "run (between sched) s1 = Some s2"
    and "chans s2 (Response req) = []"
    and "ctxDone c (t_wake sched)"
  shows "OptimizeCommand sched c sessionID command s = Some ((None, Some (cause c)), s2)"
  using assms by (simp add: OptimizeCommand_def OptimizeCommand_wait_def)

theorem cancellation_before_fulfilment_witness:
  "\<exists>s0 req s1. NewOptimizer 4 = Some s0 \<and>
     OptimizeCommand_cached 10 10 ''s1'' ''/user:build A'' s0 = None \<and>
     OptimizeCommand_dispatch 10 (cancelled 20) ''s1'' ''/user:build A'' s0 = (req, s1) \<and>
     run [(15, Tick)] s1 = Some s1 \<and>
     chans s1 (Response req) = [] \<and>
     ctxDone (cancelled 20) 25 \<and>
     OptimizeCommand \<lparr>t_start = 10, t_call = 10, between = [(15, Tick)], t_wake = 25,
                       choice = PickResponse\<rparr> (cancelled 20) ''s1'' ''/user:build A'' s0 =
       Some ((None, Some Canceled), s1)"
proof -
  let ?sched = "\<lparr>t_start = 10, t_call = 10, between = [(15, Tick)], t_wake = 25,
                       choice = PickResponse\<rparr>"
  obtain s0 where s0: "NewOptimizer 4 = Some s0" "cache s0 = Map.empty" "batchQueue s0 = []"
    "chans s0 = (\<lambda>c. [])" "batch s0 = []"
    by (simp add: NewOptimizer_def NewWorkerPool_def)
  obtain req s1 where d: "OptimizeCommand_dispatch 10 (cancelled 20) ''s1'' ''/user:build A'' s0 = (req, s1)"
    by (cases "OptimizeCommand_dispatch 10 (cancelled 20) ''s1'' ''/user:build A'' s0")
  have h1: "OptimizeCommand_cached (t_start ?sched) (t_call ?sched) ''s1'' ''/user:build A'' s0 = None"
    by (simp add: OptimizeCommand_cached_def s0)
  have h2: "OptimizeCommand_dispatch (t_call ?sched) (cancelled 20) ''s1'' ''/user:build A'' s0 = (req, s1)"
    using d by simp
  have "batch s1 = []"
    using d s0 dispatch_fields(2) [of 10 "cancelled 20" "''s1''" "''/user:build A''" s0] by simp
  then have h3: "run (between ?sched) s1 = Some s1"
    by (simp add: step_def)
  have h4: "chans s1 (Response req) = []"
    using d s0 by (auto simp: OptimizeCommand_dispatch_def Let_def)
  have h5: "ctxDone (cancelled 20) (t_wake ?sched)"
    by (simp add: ctxDone_def cancelled_def)
  from cancellation_before_fulfilment [OF h1 h2 h3 h4 h5] h1 h2 h3 h4 h5 s0(1)
  show ?thesis by (auto simp: cancelled_def)
qed

section \<open>The worker pool is bounded\<close>














section \<open>Metrics\<close>

lemma metrics_recordRequest:
  "metrics (recordRequest d s) =
     (metrics s)\<lparr>totalRequests := totalRequests (metrics s) + 1,
                  avgDuration := (if avgDuration (metrics s) = 0 then d
                                  else div64 (avgDuration (metrics s) + d) 2)\<rparr>"
  by (simp add: recordRequest_def Let_def)

text \<open>
  Claim C9. \<open>recordRequest\<close> adds one to \<open>totalRequests\<close> and sets \<open>avgDuration\<close> to
  the duration when it was zero and to \<open>(avgDuration + duration) / 2\<close> otherwise, in
  \<open>int64\<close> arithmetic; for durations that are not negative and whose sum fits, this
  is the integer quotient of the sum by 2. A caller that returns with a response has
  called it once.
\<close>

theorem smoothed_average:
  "totalRequests (metrics (recordRequest d s)) = totalRequests (metrics s) + 1 \<and>
   cacheHits (metrics (recordRequest d s)) = cacheHits (metrics s) \<and>
   (avgDuration (metrics s) = 0 \<longrightarrow> avgDuration (metrics (recordRequest d s)) = d) \<and>
   (avgDuration (metrics s) \<noteq> 0 \<longrightarrow>
      avgDuration (metrics (recordRequest d s)) = div64 (avgDuration (metrics s) + d) 2) \<and>
   (avgDuration (metrics s) \<noteq> 0 \<and> 0 \<le> sint (avgDuration (metrics s)) \<and> 0 \<le> sint d \<and>
    sint (avgDuration (metrics s)) + sint d \<le> 9223372036854775807 \<longrightarrow>
      sint (avgDuration (metrics (recordRequest d s))) =
        (sint (avgDuration (metrics s)) + sint d) div 2) \<and>
   (OptimizeCommand_wait now pk c start key req s = Some ((Some resp, None), s') \<longrightarrow>
      totalRequests (metrics s') = totalRequests (metrics s) + 1)"
proof -
  have sd: "sint (div64 (a + d) 2) = (sint a + sint d) div 2"
    if "0 \<le> sint a" "0 \<le> sint d" "sint a + sint d \<le> 9223372036854775807" for a :: int64
  proof -
    have "sint (div64 (a + d) 2) = (sint a + sint d) sdiv 2"
      using that by (intro div64_2) auto
    also have "\<dots> = (sint a + sint d) div 2"
      using that by (simp add: signed_divide_int_def sgn_if)
    finally show ?thesis .
  qed
  have w1: "totalRequests (metrics s') = totalRequests (metrics s) + 1"
    if "OptimizeCommand_wait now pk c start key req s = Some ((Some resp, None), s')"
    using that by (auto simp: OptimizeCommand_wait_def Let_def metrics_recordRequest split: if_splits)
  show ?thesis
    using sd [of "avgDuration (metrics s)"] w1
    by (simp add: metrics_recordRequest)
qed

theorem smoothed_average_witness:
  "\<exists>s0 s resp s'.
     NewOptimizer 4 = Some s0 \<and> avgDuration (metrics s0) = 0 \<and>
     avgDuration (metrics (recordRequest 10 s0)) = 10 \<and>
     totalRequests (metrics (recordRequest 10 s0)) = 1 \<and>
     avgDuration (metrics (recordRequest 21 (recordRequest 10 s0))) = div64 (10 + 21) 2 \<and>
     sint (avgDuration (metrics (recordRequest 21 (recordRequest 10 s0)))) = 15 \<and>
     totalRequests (metrics (recordRequest 21 (recordRequest 10 s0))) = 2 \<and>
     started 4 (submitAndCollect [''/user:build A'']) = Some s \<and>
     OptimizeCommand_wait 100000001 PickResponse background 0 (cacheKey ''s1'' ''/user:build A'')
       (request ''/user:build A'' 0) s = Some ((Some resp, None), s') \<and>
     totalRequests (metrics s') = 1"
proof -
  obtain s0 where s0: "NewOptimizer 4 = Some s0" "metrics s0 =
      \<lparr>totalRequests = 0, cacheHits = 0, avgDuration = 0, peakMemory = 0\<rparr>"
    by (simp add: NewOptimizer_def NewWorkerPool_def)
  let ?s1 = "recordRequest 10 s0"
  have a0: "avgDuration (metrics s0) = 0" "totalRequests (metrics s0) = 0" by (simp_all add: s0(2))
  note t0 = smoothed_average [of 10 s0]
  have a1: "avgDuration (metrics ?s1) = 10" "totalRequests (metrics ?s1) = 1"
    using t0 a0 by simp_all
  have pre: "avgDuration (metrics ?s1) \<noteq> 0 \<and> 0 \<le> sint (avgDuration (metrics ?s1)) \<and>
        0 \<le> sint (21 :: int64) \<and>
        sint (avgDuration (metrics ?s1)) + sint (21 :: int64) \<le> 9223372036854775807"
    unfolding a1 by simp
  note t1 = smoothed_average [of 21 ?s1]
  have v: "sint (div64 (10 + 21) 2) = 15"
    by (simp add: div64_def signed_divide_int_def)
  have a2: "avgDuration (metrics (recordRequest 21 ?s1)) = div64 (10 + 21) 2"
    "totalRequests (metrics (recordRequest 21 ?s1)) = 2"
    using t1 pre a1 by simp_all
  have a2': "sint (avgDuration (metrics (recordRequest 21 ?s1))) = 15"
    unfolding a2(1) by (rule v)
  let ?R = "\<lparr>Result = ''Processed: /user:build A'', Error = None, CacheHit = False,
             BatchSize = 1, Duration = 100000000\<rparr>"
  have "\<exists>s. started 4 (submitAndCollect [''/user:build A'']) = Some s \<and> chans s 0 = [?R] \<and>
          totalRequests (metrics s) = 0"
    by (simp add: run_eval)
  then obtain s where s: "started 4 (submitAndCollect [''/user:build A'']) = Some s"
    "chans s 0 = [?R]" "totalRequests (metrics s) = 0" by blast
  have "\<exists>s'. OptimizeCommand_wait 100000001 PickResponse background 0
               (cacheKey ''s1'' ''/user:build A'') (request ''/user:build A'' 0) s
             = Some ((Some ?R, None), s')"
    using s(2) by (simp add: OptimizeCommand_wait_def request_def Let_def)
  then obtain s' where w: "OptimizeCommand_wait 100000001 PickResponse background 0
               (cacheKey ''s1'' ''/user:build A'') (request ''/user:build A'' 0) s
             = Some ((Some ?R, None), s')" by blast
  have a3: "totalRequests (metrics s') = 1"
    using smoothed_average [of 10 s 100000001 PickResponse background 0
        "cacheKey ''s1'' ''/user:build A''" "request ''/user:build A'' 0" ?R s'] w s(3)
    by simp
  from s0(1) a0 a1 a2 a2' s(1) w a3 show ?thesis by blast
qed

text \<open>
  The stored value is not the arithmetic mean: after the durations 10, 20 and 60 it is
  37, and their mean is 30.
\<close>

theorem smoothed_average_is_not_the_mean:
  "map_option (\<lambda>s. avgDuration (metrics (recordRequest 60 (recordRequest 20 (recordRequest 10 s)))))
     (NewOptimizer 4) = Some 37 \<and>
   (10 + 20 + 60) div 3 = (30 :: int)"
  by code_simp

text \<open>
  Claim C10, as stated: \<open>getCacheHitRate\<close> is above 1 whenever the cache hits
  outnumber the requests that were not served from the cache. Not for all counts: the
  division is one of \<open>float64\<close>, and from \<open>2^53\<close> on the conversions round. With
  \<open>2^53 + 1\<close> hits and \<open>2^53\<close> requests both counters convert to the same number and
  the rate is exactly 1.
\<close>

theorem hit_rate_of_large_counts:
  "map_option getCacheHitRate (withCounters 9007199254740993 9007199254740992) = Some 1"
  by code_simp

text \<open>
  Claim C10, amended. A call served from the cache adds one to \<open>cacheHits\<close> and leaves
  \<open>totalRequests\<close> as it is; a caller leaving its wait leaves \<open>cacheHits\<close> as it
  is and adds one to \<open>totalRequests\<close> when it returns a response, nothing when it
  returns the context's error. \<open>getCacheHitRate\<close> is 0 when \<open>totalRequests\<close> is 0 and otherwise the \<open>float64\<close>
  quotient of the two counters converted to \<open>float64\<close>; for positive counters below
  \<open>2^53\<close> this is the quotient \<open>cacheHits / totalRequests\<close> up to a relative error of
  \<open>2^-53\<close>, and it is above 1 when \<open>cacheHits\<close> is above \<open>totalRequests\<close>, as after
  one executed request and two hits, where it is 2.
\<close>

theorem hit_rate_accounting:
  "(OptimizeCommand_cached start now sessionID command s = Some (resp, s') \<longrightarrow>
      cacheHits (metrics s') = cacheHits (metrics s) + 1 \<and>
      totalRequests (metrics s') = totalRequests (metrics s)) \<and>
   (OptimizeCommand_wait now pk c start key req s = Some (res, s') \<longrightarrow>
      cacheHits (metrics s') = cacheHits (metrics s) \<and>
      totalRequests (metrics s') =
        totalRequests (metrics s) + (if fst res = None then 0 else 1)) \<and>
   (totalRequests (metrics s) = 0 \<longrightarrow> getCacheHitRate s = 0) \<and>
   (totalRequests (metrics s) \<noteq> 0 \<longrightarrow>
      getCacheHitRate s =
        float64_div (float64 (sint (cacheHits (metrics s))))
                    (float64 (sint (totalRequests (metrics s))))) \<and>
   (0 < sint (totalRequests (metrics s)) \<and> sint (totalRequests (metrics s)) < 9007199254740992 \<and>
    0 < sint (cacheHits (metrics s)) \<and> sint (cacheHits (metrics s)) < 9007199254740992 \<longrightarrow>
      \<bar>getCacheHitRate s -
         real_of_int (sint (cacheHits (metrics s))) /
         real_of_int (sint (totalRequests (metrics s)))\<bar>
        \<le> real_of_int (sint (cacheHits (metrics s))) /
           real_of_int (sint (totalRequests (metrics s))) / 2 ^ 53) \<and>
   (0 < sint (totalRequests (metrics s)) \<and>
    sint (totalRequests (metrics s)) < sint (cacheHits (metrics s)) \<and>
    sint (cacheHits (metrics s)) < 9007199254740992 \<longrightarrow>
      1 < getCacheHitRate s)"
proof -
  define h where "h = sint (cacheHits (metrics s))"
  define t where "t = sint (totalRequests (metrics s))"
  have h1: "cacheHits (metrics s') = cacheHits (metrics s) + 1 \<and>
      totalRequests (metrics s') = totalRequests (metrics s)"
    if "OptimizeCommand_cached start now sessionID command s = Some (resp, s')"
    using cached_fields [OF that] by (simp add: recordCacheHit_def)
  have h2: "cacheHits (metrics s') = cacheHits (metrics s) \<and>
      totalRequests (metrics s') =
        totalRequests (metrics s) + (if fst res = None then 0 else 1)"
    if "OptimizeCommand_wait now pk c start key req s = Some (res, s')"
    using that by (auto simp: OptimizeCommand_wait_def Let_def metrics_recordRequest split: if_splits)
  have h3: "getCacheHitRate s = 0" if "totalRequests (metrics s) = 0"
    using that by (simp add: getCacheHitRate_def)
  have h4: "getCacheHitRate s = float64_div (float64 h) (float64 t)"
    if "totalRequests (metrics s) \<noteq> 0"
    unfolding getCacheHitRate_def h_def t_def by (simp only: that if_False)
  have nz: "totalRequests (metrics s) \<noteq> 0" if "0 < t"
    using that unfolding t_def by auto
  have h5: "\<bar>getCacheHitRate s - real_of_int h / real_of_int t\<bar>
              \<le> real_of_int h / real_of_int t / 2 ^ 53"
    if "0 < t \<and> t < 9007199254740992 \<and> 0 < h \<and> h < 9007199254740992"
  proof -
    have "float64 h = h" "float64 t = t" using that by (simp_all add: float64_small)
    with h4 [OF nz] that have "getCacheHitRate s = float64_div h t" by simp
    moreover have "\<bar>float64_div h t - real_of_int h / real_of_int t\<bar>
              \<le> real_of_int h / real_of_int t / 2 ^ 53"
      using that by (intro float64_div_err) simp_all
    ultimately show ?thesis by (simp only:)
  qed
  have h6: "1 < getCacheHitRate s" if "0 < t \<and> t < h \<and> h < 9007199254740992"
  proof -
    have "float64 h = h" "float64 t = t" using that by (simp_all add: float64_small)
    with h4 [OF nz] that have "getCacheHitRate s = float64_div h t" by simp
    moreover have "1 < float64_div h t" using that by (intro float64_div_above_one) simp_all
    ultimately show ?thesis by (simp only:)
  qed
  show ?thesis
    unfolding h_def [symmetric] t_def [symmetric]
    using h1 h2 h3 h4 h5 h6 by (intro conjI impI) blast+
qed

theorem hit_rate_accounting_witness:
  "\<exists>s0 sa res sb s resp s'.
     NewOptimizer 4 = Some s0 \<and> totalRequests (metrics s0) = 0 \<and> getCacheHitRate s0 = 0 \<and>
     run (submitAndCollect [''/user:build A'']) s0 = Some sa \<and>
     OptimizeCommand_wait 100000001 PickResponse background 0 (cacheKey ''s1'' ''/user:build A'')
       (request ''/user:build A'' 0) sa = Some (res, sb) \<and>
     cacheHits (metrics sa) = 0 \<and> cacheHits (metrics sb) = 0 \<and>
     totalRequests (metrics sa) = 0 \<and> totalRequests (metrics sb) = 1 \<and>
     run (submitAndCollect [''/user:build A''] @
          [(100000001, Return PickResponse 0 (request ''/user:build A'' 0)),
           (100000002, Call background ''s1'' ''/user:build A''),
           (100000003, Call background ''s1'' ''/user:build A'')]) s0 = Some s \<and>
     totalRequests (metrics s) = 1 \<and> cacheHits (metrics s) = 2 \<and>
     getCacheHitRate s = 2 \<and> 1 < getCacheHitRate s \<and>
     \<bar>getCacheHitRate s - 2 / 1\<bar> \<le> 2 / 1 / 2 ^ 53 \<and>
     OptimizeCommand_cached 100000004 100000004 ''s1'' ''/user:build A'' s = Some (resp, s') \<and>
     cacheHits (metrics s') = 3 \<and> totalRequests (metrics s') = 1"
proof -
  let ?evs = "submitAndCollect [''/user:build A''] @
          [(100000001, Return PickResponse 0 (request ''/user:build A'' 0)),
           (100000002, Call background ''s1'' ''/user:build A''),
           (100000003, Call background ''s1'' ''/user:build A'')]"
  obtain s0 where s0: "NewOptimizer 4 = Some s0" "totalRequests (metrics s0) = 0"
    by (simp add: NewOptimizer_def NewWorkerPool_def)
  have "\<exists>s. started 4 ?evs = Some s \<and> totalRequests (metrics s) = 1 \<and>
          cacheHits (metrics s) = 2 \<and>
          (\<exists>resp s'. OptimizeCommand_cached 100000004 100000004 ''s1'' ''/user:build A'' s =
              Some (resp, s'))"
    by (simp add: run_eval OptimizeCommand_wait_def request_def recordRequest_def
        recordCacheHit_def ctxDone_def IsExpired_iff)
  then obtain s resp s' where s: "run ?evs s0 = Some s" "totalRequests (metrics s) = 1"
    "cacheHits (metrics s) = 2"
    "OptimizeCommand_cached 100000004 100000004 ''s1'' ''/user:build A'' s = Some (resp, s')"
    using s0 by (auto simp: started_def)
  let ?R = "\<lparr>Result = ''Processed: /user:build A'', Error = None, CacheHit = False,
             BatchSize = 1, Duration = 100000000\<rparr>"
  have "\<exists>sa. started 4 (submitAndCollect [''/user:build A'']) = Some sa \<and> chans sa 0 = [?R] \<and>
          cacheHits (metrics sa) = 0 \<and> totalRequests (metrics sa) = 0"
    by (simp add: run_eval)
  then obtain sa where sa: "run (submitAndCollect [''/user:build A'']) s0 = Some sa"
    "chans sa 0 = [?R]" "cacheHits (metrics sa) = 0" "totalRequests (metrics sa) = 0"
    using s0 by (auto simp: started_def)
  have "\<exists>sb. OptimizeCommand_wait 100000001 PickResponse background 0
               (cacheKey ''s1'' ''/user:build A'') (request ''/user:build A'' 0) sa
             = Some ((Some ?R, None), sb)"
    using sa(2) by (simp add: OptimizeCommand_wait_def request_def Let_def)
  then obtain sb where sb: "OptimizeCommand_wait 100000001 PickResponse background 0
               (cacheKey ''s1'' ''/user:build A'') (request ''/user:build A'' 0) sa
             = Some ((Some ?R, None), sb)" by blast
  note t2 = hit_rate_accounting [where s = sa and s' = sb and now = 100000001 and
      pk = PickResponse and c = background and start = 0 and
      key = "cacheKey ''s1'' ''/user:build A''" and req = "request ''/user:build A'' 0" and
      res = "(Some ?R, None)"]
  have hb: "cacheHits (metrics sb) = 0" "totalRequests (metrics sb) = 1"
    using t2 sb sa(3,4) by simp_all
  note t0 = hit_rate_accounting [of 0 0 "''s1''" "''/user:build A''" s0 _ _ PickResponse background
      "''k''" "request ''/user:build A'' 0"]
  note t1 = hit_rate_accounting [of 100000004 100000004 "''s1''" "''/user:build A''" s resp s'
      PickResponse background "''k''" "request ''/user:build A'' 0"]
  have v: "float64_div (float64 2) (float64 1) = 2" by code_simp
  have r0: "getCacheHitRate s0 = 0" using t0 s0(2) by simp
  have r2: "getCacheHitRate s = 2" using t1 s(2,3) v by simp
  have r1: "1 < getCacheHitRate s" using t1 s(2,3) v by simp
  have r3: "\<bar>getCacheHitRate s - 2 / 1\<bar> \<le> 2 / 1 / 2 ^ 53" using t1 s(2,3) v by simp
  have h: "cacheHits (metrics s') = 3" "totalRequests (metrics s') = 1"
    using t1 s(2,3,4) by simp_all
  from s0 r0 sa(1,3,4) sb hb s r1 r2 r3 h show ?thesis by blast
qed

end
